theory Spec2Isabelle
  imports Main
begin

section \<open>Go standard library functions the code calls\<close>

text \<open>
  The repository's code calls a few functions of Go's standard library. They are not part
  of the repository; they are transcribed here from the library (packages \<^verbatim>\<open>strings\<close>,
  \<^verbatim>\<open>path\<close> and, for a Unix target where the separator is \<open>/\<close> and there is no volume
  name, \<^verbatim>\<open>path/filepath\<close>), over Go strings as byte lists.
\<close>

subsection \<open>\<^verbatim>\<open>strings.SplitN(s, "=", 2)\<close>\<close>

text \<open>
  At most two substrings: \<open>s\<close> itself when it holds no \<open>=\<close>, otherwise the text before
  the first \<open>=\<close> and the unsplit remainder after it.
\<close>

definition SplitN_eq_2 :: "string \<Rightarrow> string list" where
  "SplitN_eq_2 s =
     (if CHR ''='' \<in> set s
      then [takeWhile (\<lambda>c. c \<noteq> CHR ''='') s, tl (dropWhile (\<lambda>c. c \<noteq> CHR ''='') s)]
      else [s])"

subsection \<open>\<^verbatim>\<open>path.Clean\<close> and \<^verbatim>\<open>path.Join\<close>\<close>

text \<open>
  \<^verbatim>\<open>path.Clean\<close> reads the path byte by byte and writes to a buffer \<open>out\<close> (its length
  is the library's write index \<open>w\<close>); \<open>dotdot\<close> is the index in the buffer where a
  \<open>..\<close> element must stop backtracking.
  \<^verbatim>\<open>
  for r < n {
      switch {
      case path[r] == '/':                                          r++
      case path[r] == '.' && (r+1 == n || path[r+1] == '/'):        r++
      case path[r] == '.' && path[r+1] == '.' && (r+2 == n || path[r+2] == '/'):
          r += 2
          switch {
          case out.w > dotdot:
              out.w--
              for out.w > dotdot && out.index(out.w) != '/' { out.w-- }
          case !rooted:
              if out.w > 0 { out.append('/') }
              out.append('.'); out.append('.'); dotdot = out.w
          }
      default:
          if rooted && out.w != 1 || !rooted && out.w != 0 { out.append('/') }
          for ; r < n && path[r] != '/'; r++ { out.append(path[r]) }
      }
  }
  \<close>
\<close>

function backtrack :: "string \<Rightarrow> nat \<Rightarrow> nat \<Rightarrow> nat" where
  "backtrack out dotdot w =
     (if w > dotdot \<and> out ! w \<noteq> CHR ''/'' then backtrack out dotdot (w - 1) else w)"
  by pat_completeness auto
termination
  by (relation "measure (\<lambda>(out, dotdot, w). w)") auto

definition is_sep_next :: "string \<Rightarrow> bool" where
  "is_sep_next cs = (cs = [] \<or> hd cs = CHR ''/'')"

fun clean_step :: "bool \<Rightarrow> string \<Rightarrow> string \<Rightarrow> nat \<Rightarrow> string \<times> string \<times> nat" where
  "clean_step rooted [] out dotdot = ([], out, dotdot)"
| "clean_step rooted (c # cs) out dotdot =
     (if c = CHR ''/'' then (cs, out, dotdot)
      else if c = CHR ''.'' \<and> is_sep_next cs then (cs, out, dotdot)
      else if c = CHR ''.'' \<and> cs \<noteq> [] \<and> hd cs = CHR ''.'' \<and> is_sep_next (tl cs)
      then (if length out > dotdot
            then (tl cs, take (backtrack out dotdot (length out - 1)) out, dotdot)
            else if \<not> rooted
            then (tl cs, (if length out > 0 then out @ ''/'' else out) @ ''..'',
                  length ((if length out > 0 then out @ ''/'' else out) @ ''..''))
            else (tl cs, out, dotdot))
      else (dropWhile (\<lambda>x. x \<noteq> CHR ''/'') (c # cs),
            (if (rooted \<and> length out \<noteq> 1) \<or> (\<not> rooted \<and> length out \<noteq> 0) then out @ ''/'' else out)
              @ takeWhile (\<lambda>x. x \<noteq> CHR ''/'') (c # cs),
            dotdot))"

lemma dropWhile_sep_shorter:
  "c \<noteq> CHR ''/'' \<Longrightarrow> length (dropWhile (\<lambda>x. x \<noteq> CHR ''/'') (c # cs)) < length (c # cs)"
  using length_dropWhile_le [of "\<lambda>x. x \<noteq> CHR ''/''" cs] by simp

lemma clean_step_rest:
  "fst (clean_step rooted (c # cs) out dotdot) = cs \<or>
   fst (clean_step rooted (c # cs) out dotdot) = tl cs \<or>
   (c \<noteq> CHR ''/'' \<and> fst (clean_step rooted (c # cs) out dotdot) = dropWhile (\<lambda>x. x \<noteq> CHR ''/'') (c # cs))"
  by (simp only: clean_step.simps fst_conv if_distrib [of fst] split: if_split) blast

lemma clean_step_shorter: "p \<noteq> [] \<Longrightarrow> length (fst (clean_step rooted p out dotdot)) < length p"
proof (cases p)
  case Nil
  assume "p \<noteq> []"
  with Nil show ?thesis by simp
next
  case (Cons c cs)
  have "length (tl cs) < length (c # cs)" by (simp add: less_Suc_eq_le)
  moreover have "length cs < length (c # cs)" by simp
  ultimately show ?thesis
    using clean_step_rest [of rooted c cs out dotdot] dropWhile_sep_shorter [of c cs]
    unfolding Cons by metis
qed

function clean_loop :: "bool \<Rightarrow> string \<Rightarrow> string \<Rightarrow> nat \<Rightarrow> string" where
  "clean_loop rooted p out dotdot =
     (if p = [] then out
      else case clean_step rooted p out dotdot of (p', out', dotdot') \<Rightarrow> clean_loop rooted p' out' dotdot')"
  by pat_completeness auto
termination
proof (relation "measure (\<lambda>(rooted, p, out, dotdot). length p)", goal_cases)
  case 1
  show ?case by simp
next
  case prems: 2
  show ?case using prems clean_step_shorter by (metis fst_conv in_measure old.prod.case)
qed

definition path_Clean :: "string \<Rightarrow> string" where
  "path_Clean p =
     (if p = [] then ''.''
      else let rooted = (hd p = CHR ''/'');
               out = (if rooted then clean_loop True (tl p) ''/'' 1
                      else clean_loop False p [] 0)
           in if out = [] then ''.'' else out)"

text \<open>
  \<^verbatim>\<open>path.Join\<close>: empty elements are ignored, the others are joined with \<open>/\<close> and the
  result is cleaned; when every element is empty the result is the empty string.
\<close>

fun join_elems :: "string list \<Rightarrow> string \<Rightarrow> string" where
  "join_elems [] buf = buf"
| "join_elems (e # es) buf =
     join_elems es
       (if length buf > 0 \<or> e \<noteq> []
        then (if length buf > 0 then buf @ ''/'' else buf) @ e
        else buf)"

definition path_Join :: "string list \<Rightarrow> string" where
  "path_Join elem = (if concat elem = [] then [] else path_Clean (join_elems elem []))"

text \<open>On a Unix target \<^verbatim>\<open>filepath.Clean\<close> and \<^verbatim>\<open>filepath.Join\<close> compute the same.\<close>

definition filepath_Clean :: "string \<Rightarrow> string" where
  "filepath_Clean p = path_Clean p"

definition filepath_Join :: "string list \<Rightarrow> string" where
  "filepath_Join elem = path_Join elem"

subsection \<open>\<^verbatim>\<open>strings.TrimSpace\<close>\<close>

text \<open>
  Leading and trailing white space, as Unicode defines it, is removed. Over UTF-8 bytes
  the white-space code points are the byte sequences below (U+0009 to U+000D, U+0020,
  U+0085, U+00A0, U+1680, U+2000 to U+200A, U+2028, U+2029, U+202F, U+205F, U+3000).
\<close>

definition white_space :: "string list" where
  "white_space =
     [[CHR 0x09], [CHR 0x0A], [CHR 0x0B], [CHR 0x0C], [CHR 0x0D], [CHR 0x20],
      [CHR 0xC2, CHR 0x85], [CHR 0xC2, CHR 0xA0], [CHR 0xE1, CHR 0x9A, CHR 0x80],
      [CHR 0xE2, CHR 0x80, CHR 0x80], [CHR 0xE2, CHR 0x80, CHR 0x81], [CHR 0xE2, CHR 0x80, CHR 0x82],
      [CHR 0xE2, CHR 0x80, CHR 0x83], [CHR 0xE2, CHR 0x80, CHR 0x84], [CHR 0xE2, CHR 0x80, CHR 0x85],
      [CHR 0xE2, CHR 0x80, CHR 0x86], [CHR 0xE2, CHR 0x80, CHR 0x87], [CHR 0xE2, CHR 0x80, CHR 0x88],
      [CHR 0xE2, CHR 0x80, CHR 0x89], [CHR 0xE2, CHR 0x80, CHR 0x8A], [CHR 0xE2, CHR 0x80, CHR 0xA8],
      [CHR 0xE2, CHR 0x80, CHR 0xA9], [CHR 0xE2, CHR 0x80, CHR 0xAF], [CHR 0xE2, CHR 0x81, CHR 0x9F],
      [CHR 0xE3, CHR 0x80, CHR 0x80]]"

definition space_prefix :: "string \<Rightarrow> string option" where
  "space_prefix s = List.find (\<lambda>ws. take (length ws) s = ws) white_space"

definition space_suffix :: "string \<Rightarrow> string option" where
  "space_suffix s = List.find (\<lambda>ws. drop (length s - length ws) s = ws) white_space"

lemma white_space_nonempty: "ws \<in> set white_space \<Longrightarrow> ws \<noteq> []"
  unfolding white_space_def by auto

lemma space_prefix_shorter: "space_prefix s = Some ws \<Longrightarrow> length (drop (length ws) s) < length s"
proof -
  assume f: "space_prefix s = Some ws"
  then have m: "ws \<in> set white_space" and t: "take (length ws) s = ws"
    by (auto simp: space_prefix_def find_Some_iff)
  from m have "ws \<noteq> []" by (rule white_space_nonempty)
  moreover have "length ws \<le> length s"
  proof -
    have "length (take (length ws) s) = length ws" by (rule arg_cong [where f = length, OF t])
    then have "min (length s) (length ws) = length ws" by (simp only: length_take)
    then show ?thesis by arith
  qed
  ultimately show ?thesis by (cases ws) auto
qed

lemma space_suffix_shorter: "space_suffix s = Some ws \<Longrightarrow> length (take (length s - length ws) s) < length s"
proof -
  assume f: "space_suffix s = Some ws"
  then have m: "ws \<in> set white_space" and t: "drop (length s - length ws) s = ws"
    by (auto simp: space_suffix_def find_Some_iff)
  from m have "ws \<noteq> []" by (rule white_space_nonempty)
  moreover from t \<open>ws \<noteq> []\<close> have "s \<noteq> []" by auto
  ultimately show ?thesis by (cases ws) auto
qed

function trim_left :: "string \<Rightarrow> string" where
  "trim_left s = (case space_prefix s of None \<Rightarrow> s | Some ws \<Rightarrow> trim_left (drop (length ws) s))"
  by pat_completeness auto
termination
  by (relation "measure length") (auto dest: space_prefix_shorter)

function trim_right :: "string \<Rightarrow> string" where
  "trim_right s =
     (case space_suffix s of None \<Rightarrow> s | Some ws \<Rightarrow> trim_right (take (length s - length ws) s))"
  by pat_completeness auto
termination
  by (relation "measure length") (auto dest: space_suffix_shorter)

definition strings_TrimSpace :: "string \<Rightarrow> string" where
  "strings_TrimSpace s = trim_right (trim_left s)"

section \<open>What \<^verbatim>\<open>path.Clean\<close> is documented to compute\<close>

text \<open>
  The library documents \<^verbatim>\<open>Clean\<close> by rules on the elements of a path, the texts between
  its separators: multiple slashes are replaced by a single slash (there is no empty
  element), each \<open>.\<close> element is eliminated, each inner \<open>..\<close> element is eliminated
  along with the non-\<open>..\<close> element that precedes it, \<open>..\<close> elements that begin a
  rooted path are eliminated, the result ends in a slash only if it is the root \<open>/\<close>,
  and an empty result is replaced by \<open>.\<close>. The definitions of this section follow these
  words, not the loop of the library; the loop is compared with them below.

  \<open>path_elements\<close> lists the non-empty elements of a path and \<open>join_sep\<close> writes a
  list of elements with single separators. \<open>apply_element\<close> is the effect of one element
  on the elements kept so far, \<open>clean_elements\<close> the elements that are left, and
  \<open>clean_spec\<close> the documented result.
\<close>

fun join_sep :: "string list \<Rightarrow> string" where
  "join_sep [] = []"
| "join_sep [e] = e"
| "join_sep (e # e' # es) = e @ ''/'' @ join_sep (e' # es)"

function path_elements :: "string \<Rightarrow> string list" where
  "path_elements [] = []"
| "path_elements (c # cs) =
     (if c = CHR ''/'' then path_elements cs
      else takeWhile (\<lambda>x. x \<noteq> CHR ''/'') (c # cs) # path_elements (dropWhile (\<lambda>x. x \<noteq> CHR ''/'') (c # cs)))"
  by pat_completeness auto
termination
proof (relation "measure length", goal_cases)
  case 1
  show ?case by simp
next
  case 2
  show ?case by simp
next
  case prems: (3 c cs)
  show ?case using dropWhile_sep_shorter [OF prems] by (simp only: in_measure)
qed

definition apply_element :: "bool \<Rightarrow> string list \<Rightarrow> string \<Rightarrow> string list" where
  "apply_element rooted st e =
     (if e = ''.'' then st
      else if e = ''..''
      then (if st \<noteq> [] \<and> last st \<noteq> ''..'' then butlast st
            else if rooted then st
            else st @ [''..''])
      else st @ [e])"

definition clean_elements :: "bool \<Rightarrow> string list \<Rightarrow> string list" where
  "clean_elements rooted es = foldl (apply_element rooted) [] es"

definition clean_spec :: "string \<Rightarrow> string" where
  "clean_spec p =
     (let rooted = (p \<noteq> [] \<and> hd p = CHR ''/'');
          st = clean_elements rooted (path_elements p)
      in if rooted then CHR ''/'' # join_sep st
         else if st = [] then ''.''
         else join_sep st)"

text \<open>
  A path is in clean form when it is \<open>.\<close>, or when it is not empty, is its elements
  written with single separators (after the root \<open>/\<close> for a rooted path, so that no
  element is empty and only the root ends in a slash), has no \<open>.\<close> element, has no
  \<open>..\<close> element after an element of another kind, and, when rooted, has no \<open>..\<close>
  element at all.
\<close>

definition cleaned :: "string \<Rightarrow> bool" where
  "cleaned r =
     (r = ''.'' \<or>
      (r \<noteq> [] \<and>
       (let rooted = (hd r = CHR ''/''); es = path_elements r
        in r = (if rooted then ''/'' else []) @ join_sep es \<and>
           ''.'' \<notin> set es \<and>
           ''..'' \<notin> set (dropWhile (\<lambda>e. e = ''..'') es) \<and>
           (rooted \<longrightarrow> ''..'' \<notin> set es))))"

text \<open>
  The link between the loop and the elements: the buffer of the loop holds the elements
  kept so far (\<open>buf_of\<close>), and \<open>dotdot\<close> is the length of the \<open>..\<close> elements at the
  front of a relative path, or of the root (\<open>dd_of\<close>). The elements kept
  (\<open>stack_ok\<close>) are not empty, hold no separator and are not \<open>.\<close>; \<open>..\<close> elements
  are at the front only, and only in a relative path.
\<close>

definition is_dots :: "string \<Rightarrow> bool" where
  "is_dots e = (e = ''..'')"

definition element :: "string \<Rightarrow> bool" where
  "element e = (e \<noteq> [] \<and> CHR ''/'' \<notin> set e)"

definition stack_ok :: "bool \<Rightarrow> string list \<Rightarrow> bool" where
  "stack_ok rooted st =
     ((\<forall>e \<in> set st. element e \<and> e \<noteq> ''.'') \<and>
      (rooted \<longrightarrow> ''..'' \<notin> set st) \<and>
      ''..'' \<notin> set (dropWhile is_dots st))"

definition buf_of :: "bool \<Rightarrow> string list \<Rightarrow> string" where
  "buf_of rooted st = (if rooted then ''/'' else []) @ join_sep st"

definition dd_of :: "bool \<Rightarrow> string list \<Rightarrow> nat" where
  "dd_of rooted st = (if rooted then 1 else length (join_sep (takeWhile is_dots st)))"

section \<open>The data model\<close>

text \<open>
  Values of Go's \<^verbatim>\<open>interface{}\<close> as far as the code inspects them. The rendering
  context \<^verbatim>\<open>g.context\<close> is either a pointer to a \<^verbatim>\<open>context\<close> (a map from strings to
  values; the type switch of \<^verbatim>\<open>mappingNamer\<close> has the one case \<^verbatim>\<open>*context\<close>) or any
  other value: \<^verbatim>\<open>nil\<close>, a string, or a value the code never looks into.
\<close>

datatype val =
    NilValue
  | StringValue string
  | ContextPtr "string \<Rightarrow> val option"
  | OtherValue nat

text \<open>
  Errors are values. \<open>Wrapf e ctx inPath\<close> is
  \<^verbatim>\<open>errors.Wrapf(e, "failed to render outputMap with ctx %+v and inPath %s", ctx, inPath)\<close>.
\<close>

datatype error =
    Error string
  | Wrapf error val string

text \<open>
  An \<^verbatim>\<open>io.Writer\<close>: a \<^verbatim>\<open>*os.File\<close> (known by its identity; it implements
  \<^verbatim>\<open>io.Closer\<close>), the \<^verbatim>\<open>*bytes.Buffer\<close> that \<^verbatim>\<open>mappingNamer\<close> allocates (no
  \<^verbatim>\<open>Close\<close> method), or any other writer, with whether its type implements
  \<^verbatim>\<open>io.Closer\<close>. \<^verbatim>\<open>os.Stdout\<close> is one particular \<^verbatim>\<open>*os.File\<close>.
\<close>

datatype writer =
    OsFile nat
  | BytesBuffer
  | OtherWriter nat bool

definition os_Stdout :: writer where
  "os_Stdout = OsFile 1"

fun is_Closer :: "writer \<Rightarrow> bool" where
  "is_Closer (OsFile f) = True"
| "is_Closer BytesBuffer = False"
| "is_Closer (OtherWriter i closer) = closer"

text \<open>The template descriptor \<^verbatim>\<open>tplate\<close>, with the fields the code reads.\<close>

record tplate =
  name :: string
  contents :: string
  target :: writer

text \<open>\<^verbatim>\<open>os.FileInfo\<close>, with the two methods the code calls.\<close>

record FileInfo =
  Name :: string
  IsDir :: bool

type_synonym templateAliases = "string \<Rightarrow> string option"

text \<open>
  The result of \<^verbatim>\<open>data.NewData\<close> is opaque to this code: a handle. \<^verbatim>\<open>Funcs(d)\<close> is the
  function table built from it.
\<close>

datatype Data = DataHandle nat

datatype FuncMap = Funcs Data

text \<open>
  The renderer \<^verbatim>\<open>gomplate\<close>. Its field \<^verbatim>\<open>rootTemplate\<close> is state of the template
  engine; the engine below sees the whole history of the run instead.
\<close>

record gomplate =
  funcMap :: FuncMap
  leftDelim :: string
  rightDelim :: string
  nestedTemplates :: templateAliases
  context' :: val

text \<open>The configuration \<^verbatim>\<open>Config\<close>, with the fields the command line sets.\<close>

record Config =
  Input :: string
  InputFiles :: "string list"
  InputDir :: string
  ExcludeGlob :: "string list"
  OutputFiles :: "string list"
  OutputDir :: string
  OutputMap :: string
  OutMode :: string
  DataSources :: "string list"
  DataSourceHeaders :: "string list"
  Contexts :: "string list"
  LDelim :: string
  RDelim :: string
  Templates :: "string list"

text \<open>
  The counters of the process-wide \<^verbatim>\<open>Metrics\<close>. The three durations are left out: they
  measure real time. The counters are Go \<^verbatim>\<open>int\<close>s (64 bits); they start at zero in each
  run and count templates of one slice, so they stay far below \<open>2^63\<close> and are modelled as
  natural numbers.
\<close>

record MetricsHolder =
  TemplatesGathered :: nat
  TemplatesProcessed :: nat
  Errors :: nat

text \<open>
  Modelled from the spec: \<^verbatim>\<open>newMetrics\<close> is not among the sources; the specification says
  the counters are reset at the start of each run.
\<close>

definition newMetrics :: MetricsHolder where
  "newMetrics = \<lparr>TemplatesGathered = 0, TemplatesProcessed = 0, Errors = 0\<rparr>"

text \<open>
  A closure returned by \<^verbatim>\<open>simpleNamer\<close> or \<^verbatim>\<open>mappingNamer\<close>: the function it is, with
  the variables it captured.
\<close>

datatype namer =
    SimpleNamer string
  | MappingNamer string gomplate

section \<open>Effects\<close>

text \<open>
  What a run does to the world outside is kept as a trace of events, oldest first: each
  compilation of a descriptor (\<^verbatim>\<open>toGoTemplate\<close>) with its error if any, each
  \<^verbatim>\<open>Execute\<close> with the context it ran against, the text it wrote and its error if any,
  each \<^verbatim>\<open>Close\<close> of a target, each call of \<^verbatim>\<open>gatherTemplates\<close>, and the run of the
  cleanup hooks. The state of a run is this trace and the \<^verbatim>\<open>Metrics\<close>.
\<close>

datatype event =
    Compiled tplate "error option"
  | Executed tplate val string "error option"
  | Closed writer
  | Gathered "error option"
  | CleanupHooks

record world =
  trace :: "event list"
  Metrics :: MetricsHolder

definition emit :: "event \<Rightarrow> world \<Rightarrow> world" where
  "emit e w = w\<lparr>trace := trace w @ [e]\<rparr>"

text \<open>The events of a run from \<open>w\<close> to \<open>w'\<close>, and the descriptors compiled in a trace.\<close>

definition events_since :: "world \<Rightarrow> world \<Rightarrow> event list" where
  "events_since w w' = drop (length (trace w)) (trace w')"

fun compilations :: "event list \<Rightarrow> tplate list" where
  "compilations [] = []"
| "compilations (Compiled t r # evs) = t # compilations evs"
| "compilations (e # evs) = compilations evs"

text \<open>
  How each rendering in a trace ended: a descriptor whose compilation failed, with the
  error, or a descriptor that was executed, with the error of the execution if any.
\<close>

fun outcomes :: "event list \<Rightarrow> (tplate \<times> error option) list" where
  "outcomes [] = []"
| "outcomes (Compiled t (Some e) # evs) = (t, Some e) # outcomes evs"
| "outcomes (Executed t c out r # evs) = (t, r) # outcomes evs"
| "outcomes (ev # evs) = outcomes evs"

text \<open>How often the cleanup hooks ran in a trace.\<close>

fun cleanups :: "event list \<Rightarrow> nat" where
  "cleanups [] = 0"
| "cleanups (CleanupHooks # evs) = Suc (cleanups evs)"
| "cleanups (e # evs) = cleanups evs"

text \<open>
  The collaborators of this code that are not among the sources are parameters: the
  file system \<^verbatim>\<open>fs\<close> (\<^verbatim>\<open>fs.Stat\<close>, \<^verbatim>\<open>afero.ReadDir\<close>), the template engine
  (\<^verbatim>\<open>toGoTemplate\<close> of \<^verbatim>\<open>tplate\<close>, which compiles, and \<^verbatim>\<open>Execute\<close> of
  \<^verbatim>\<open>text/template\<close>, which returns the text written and an error if any), and
  \<^verbatim>\<open>Config.defaults\<close>, \<^verbatim>\<open>data.NewData\<close>, \<^verbatim>\<open>createContext\<close> and \<^verbatim>\<open>gatherTemplates\<close>.
  The engine and the gatherer may answer differently as the run goes on (files are
  written, templates are defined): they take the trace so far. \<open>'tm\<close> is the type of
  compiled templates.
\<close>

record 'tm collaborators =
  fs_Stat :: "string \<Rightarrow> error + FileInfo"
  afero_ReadDir :: "string \<Rightarrow> error + FileInfo list"
  toGoTemplate :: "event list \<Rightarrow> tplate \<Rightarrow> gomplate \<Rightarrow> error + 'tm"
  Execute :: "event list \<Rightarrow> 'tm \<Rightarrow> writer \<Rightarrow> val \<Rightarrow> string \<times> error option"
  defaults :: "Config \<Rightarrow> Config"
  data_NewData :: "string list \<Rightarrow> string list \<Rightarrow> error + Data"
  createContext :: "string list \<Rightarrow> Data \<Rightarrow> error + val"
  gatherTemplates :: "event list \<Rightarrow> Config \<Rightarrow> namer \<Rightarrow> error + tplate list"

section \<open>Executing one template\<close>

text \<open>
  \<^verbatim>\<open>runTemplate\<close>. A compile error returns at once. Otherwise, when the target's type
  implements \<^verbatim>\<open>io.Closer\<close> and the target is not \<^verbatim>\<open>os.Stdout\<close>, its \<^verbatim>\<open>Close\<close> is
  deferred: it runs after \<^verbatim>\<open>Execute\<close>, whether \<^verbatim>\<open>Execute\<close> failed or not.
\<close>

definition runTemplate ::
  "'tm collaborators \<Rightarrow> gomplate \<Rightarrow> tplate \<Rightarrow> world \<Rightarrow> error option \<times> world" where
  "runTemplate E g t w =
     (case toGoTemplate E (trace w) t g of
        Inl err \<Rightarrow> (Some err, emit (Compiled t (Some err)) w)
      | Inr tmpl \<Rightarrow>
          (let w1 = emit (Compiled t None) w;
               deferred_Close = (is_Closer (target t) \<and> target t \<noteq> os_Stdout);
               (out, err) = Execute E (trace w1) tmpl (target t) (context' g);
               w2 = emit (Executed t (context' g) out err) w1;
               w3 = (if deferred_Close then emit (Closed (target t)) w2 else w2)
           in (err, w3)))"

section \<open>Template aliases\<close>

text \<open>
  \<^verbatim>\<open>parseTemplateArg\<close>. The loop over the directory's entries writes one alias per entry
  that is not a directory; the map is updated in place in Go and returned here.
\<close>

fun add_entries :: "string \<Rightarrow> string \<Rightarrow> FileInfo list \<Rightarrow> templateAliases \<Rightarrow> templateAliases" where
  "add_entries prefix pth [] ta = ta"
| "add_entries prefix pth (f # files) ta =
     add_entries prefix pth files
       (if \<not> IsDir f
        then ta(path_Join [prefix, Name f] \<mapsto> path_Join [pth, Name f])
        else ta)"

text \<open>
  The alias and the path of an argument. \<^verbatim>\<open>strings.SplitN\<close> returns one or two parts
  here, so \<^verbatim>\<open>parts[0]\<close> is always there.
\<close>

definition split_arg :: "string \<Rightarrow> string \<times> string" where
  "split_arg templateArg =
     (let parts = SplitN_eq_2 templateArg
      in if length parts > 1 then (parts ! 0, parts ! 1) else ('''', parts ! 0))"

definition parseTemplateArg ::
  "'tm collaborators \<Rightarrow> string \<Rightarrow> templateAliases \<Rightarrow> error + templateAliases" where
  "parseTemplateArg E templateArg ta =
     (let (alias, pth) = split_arg templateArg
      in case fs_Stat E pth of
           Inl err \<Rightarrow> Inl err
         | Inr fi \<Rightarrow>
             if IsDir fi
             then (case afero_ReadDir E pth of
                     Inl err \<Rightarrow> Inl err
                   | Inr files \<Rightarrow>
                       (let prefix = (if alias \<noteq> '''' then alias else pth)
                        in Inr (add_entries prefix pth files ta)))
             else if alias \<noteq> '''' then Inr (ta(alias \<mapsto> pth))
             else Inr (ta(pth \<mapsto> pth)))"

text \<open>
  \<^verbatim>\<open>parseTemplateArgs\<close>: the loop over the arguments, started on the empty map. On the
  first error the map built so far is dropped (\<^verbatim>\<open>return nil, err\<close>).
\<close>

fun parse_loop ::
  "'tm collaborators \<Rightarrow> string list \<Rightarrow> templateAliases \<Rightarrow> error + templateAliases" where
  "parse_loop E [] nested = Inr nested"
| "parse_loop E (templateArg # rest) nested =
     (case parseTemplateArg E templateArg nested of
        Inl err \<Rightarrow> Inl err
      | Inr nested' \<Rightarrow> parse_loop E rest nested')"

definition parseTemplateArgs :: "'tm collaborators \<Rightarrow> string list \<Rightarrow> error + templateAliases" where
  "parseTemplateArgs E templateArgs = parse_loop E templateArgs Map.empty"

text \<open>
  The aliases a directory's entries give, in the order of the listing, and what the name
  of a directory entry looks like: it is not empty, holds no separator, and is neither
  \<open>.\<close> nor \<open>..\<close> (a listing never returns those).
\<close>

definition entry_aliases :: "string \<Rightarrow> string \<Rightarrow> FileInfo list \<Rightarrow> (string \<times> string) list" where
  "entry_aliases prefix pth files =
     map (\<lambda>f. (path_Join [prefix, Name f], path_Join [pth, Name f])) (filter (\<lambda>f. \<not> IsDir f) files)"

definition entry_name :: "string \<Rightarrow> bool" where
  "entry_name n = (n \<noteq> [] \<and> CHR ''/'' \<notin> set n \<and> n \<noteq> ''.'' \<and> n \<noteq> ''..'')"

section \<open>Output namers\<close>

definition simpleNamer :: "string \<Rightarrow> namer" where
  "simpleNamer outDir = SimpleNamer outDir"

definition mappingNamer :: "string \<Rightarrow> gomplate \<Rightarrow> namer" where
  "mappingNamer outMap g = MappingNamer outMap g"

definition chooseNamer :: "Config \<Rightarrow> gomplate \<Rightarrow> namer" where
  "chooseNamer o' g = (if OutputMap o' = '''' then simpleNamer (OutputDir o') else mappingNamer (OutputMap o') g)"

text \<open>
  The context the mapping template is executed against: a fresh \<^verbatim>\<open>context\<close>; when
  \<^verbatim>\<open>g.context\<close> is a \<^verbatim>\<open>*context\<close>, each of its entries whose key is neither \<open>in\<close> nor
  \<open>ctx\<close> is copied (the \<^verbatim>\<open>range\<close> loop visits every key once, so the order of the
  visits does not show in the result); then \<open>ctx\<close> and \<open>in\<close> are set.
\<close>

definition copy_entries :: "(string \<Rightarrow> val option) \<Rightarrow> (string \<Rightarrow> val option) \<Rightarrow> (string \<Rightarrow> val option)" where
  "copy_entries c ctx = (\<lambda>k. if c k \<noteq> None \<and> k \<noteq> ''in'' \<and> k \<noteq> ''ctx'' then c k else ctx k)"

definition derived_ctx :: "gomplate \<Rightarrow> string \<Rightarrow> (string \<Rightarrow> val option)" where
  "derived_ctx g inPath =
     (let ctx = Map.empty;
          ctx = (case context' g of ContextPtr c \<Rightarrow> copy_entries c ctx | _ \<Rightarrow> ctx);
          ctx = ctx(''ctx'' \<mapsto> context' g);
          ctx = ctx(''in'' \<mapsto> StringValue inPath)
      in ctx)"

text \<open>
  Calling a namer closure. The body of the closure of \<^verbatim>\<open>mappingNamer\<close> builds the
  descriptor \<open><OutputMap>\<close> over a fresh buffer and calls \<^verbatim>\<open>toGoTemplate\<close> on it;
  what \<^verbatim>\<open>out.String()\<close> returns afterwards is the text \<^verbatim>\<open>Execute\<close> wrote.
\<close>

fun call_namer :: "'tm collaborators \<Rightarrow> namer \<Rightarrow> string \<Rightarrow> world \<Rightarrow> (error + string) \<times> world" where
  "call_namer E (SimpleNamer outDir) inPath w =
     (let outPath = filepath_Join [outDir, inPath]
      in (Inr (filepath_Clean outPath), w))"
| "call_namer E (MappingNamer outMap g) inPath w =
     (let t = \<lparr>name = ''<OutputMap>'', contents = outMap, target = BytesBuffer\<rparr>
      in case toGoTemplate E (trace w) t g of
           Inl err \<Rightarrow> (Inl err, emit (Compiled t (Some err)) w)
         | Inr tpl \<Rightarrow>
             (let w1 = emit (Compiled t None) w;
                  ctx = derived_ctx g inPath;
                  (out, err) = Execute E (trace w1) tpl (target t) (ContextPtr ctx);
                  w2 = emit (Executed t (ContextPtr ctx) out err) w1
              in case err of
                   Some e \<Rightarrow> (Inl (Wrapf e (ContextPtr ctx) inPath), w2)
                 | None \<Rightarrow> (Inr (filepath_Clean (strings_TrimSpace out)), w2)))"

text \<open>The descriptor that the closure of \<^verbatim>\<open>mappingNamer\<close> builds.\<close>

definition OutputMap_tplate :: "string \<Rightarrow> tplate" where
  "OutputMap_tplate outMap = \<lparr>name = ''<OutputMap>'', contents = outMap, target = BytesBuffer\<rparr>"

text \<open>
  Modelled from the spec: the gatherer (\<^verbatim>\<open>gatherTemplates\<close>, not among the sources)
  invokes the output namer once for each file that survives the filters, in order, and
  a failure of the namer aborts gathering.
\<close>

fun name_inputs :: "'tm collaborators \<Rightarrow> namer \<Rightarrow> string list \<Rightarrow> world \<Rightarrow> (error + string list) \<times> world" where
  "name_inputs E nm [] w = (Inr [], w)"
| "name_inputs E nm (inPath # rest) w =
     (case call_namer E nm inPath w of
        (Inl err, w') \<Rightarrow> (Inl err, w')
      | (Inr outPath, w') \<Rightarrow>
          (case name_inputs E nm rest w' of
             (Inl err, w'') \<Rightarrow> (Inl err, w'')
           | (Inr outPaths, w'') \<Rightarrow> (Inr (outPath # outPaths), w'')))"

section \<open>Running the batch\<close>

definition count_error :: "world \<Rightarrow> world" where
  "count_error w = w\<lparr>Metrics := (Metrics w)\<lparr>Errors := Errors (Metrics w) + 1\<rparr>\<rparr>"

definition count_processed :: "world \<Rightarrow> world" where
  "count_processed w = w\<lparr>Metrics := (Metrics w)\<lparr>TemplatesProcessed := TemplatesProcessed (Metrics w) + 1\<rparr>\<rparr>"

text \<open>The \<^verbatim>\<open>for _, t := range tmpl\<close> loop of \<^verbatim>\<open>runTemplates\<close>.\<close>

fun render_loop :: "'tm collaborators \<Rightarrow> gomplate \<Rightarrow> tplate list \<Rightarrow> world \<Rightarrow> error option \<times> world" where
  "render_loop E g [] w = (None, w)"
| "render_loop E g (t # ts) w =
     (case runTemplate E g t w of
        (Some err, w') \<Rightarrow> (Some err, count_error w')
      | (None, w') \<Rightarrow> render_loop E g ts (count_processed w'))"

definition runTemplates :: "'tm collaborators \<Rightarrow> gomplate \<Rightarrow> Config \<Rightarrow> world \<Rightarrow> error option \<times> world" where
  "runTemplates E g o' w =
     (case gatherTemplates E (trace w) o' (chooseNamer o' g) of
        Inl err \<Rightarrow> (Some err, count_error (emit (Gathered (Some err)) w))
      | Inr tmpl \<Rightarrow>
          (let w1 = emit (Gathered None) w;
               w2 = w1\<lparr>Metrics := (Metrics w1)\<lparr>TemplatesGathered := length tmpl\<rparr>\<rparr>
           in render_loop E g tmpl w2))"

definition newGomplate :: "Data \<Rightarrow> string \<Rightarrow> string \<Rightarrow> templateAliases \<Rightarrow> val \<Rightarrow> gomplate" where
  "newGomplate d ld rd nested c =
     \<lparr>funcMap = Funcs d, leftDelim = ld, rightDelim = rd, nestedTemplates = nested, context' = c\<rparr>"

text \<open>
  \<^verbatim>\<open>RunTemplates\<close>. The deferred \<^verbatim>\<open>runCleanupHooks\<close> runs on every way out.
\<close>

definition RunTemplates :: "'tm collaborators \<Rightarrow> Config \<Rightarrow> world \<Rightarrow> error option \<times> world" where
  "RunTemplates E o' w0 =
     (let w = w0\<lparr>Metrics := newMetrics\<rparr>;
          o' = defaults E o';
          ds = DataSources o' @ Contexts o'
      in case data_NewData E ds (DataSourceHeaders o') of
           Inl err \<Rightarrow> (Some err, emit CleanupHooks w)
         | Inr d \<Rightarrow>
             (case parseTemplateArgs E (Templates o') of
                Inl err \<Rightarrow> (Some err, emit CleanupHooks w)
              | Inr nested \<Rightarrow>
                  (case createContext E (Contexts o') d of
                     Inl err \<Rightarrow> (Some err, emit CleanupHooks w)
                   | Inr c \<Rightarrow>
                       (let g = newGomplate d (LDelim o') (RDelim o') nested c;
                            (r, w') = runTemplates E g o' w
                        in (r, emit CleanupHooks w')))))"

section \<open>The command line: include globs\<close>

text \<open>
  \<^verbatim>\<open>processIncludes\<close> of \<^verbatim>\<open>cmd/gomplate/main.go\<close>. The Go code allocates a slice of
  \<open>1 + len(includes)\<close> strings when there is an include, writes \<open>"*"\<close> at index 0 and
  \<open>"!" + include\<close> at index \<open>i + 1\<close>, then appends the excludes. A write past the end
  of a Go slice panics; the model returns \<open>None\<close> there, so that the absence of a panic
  is a property to prove and not an assumption.
\<close>

fun write_includes :: "nat \<Rightarrow> string list \<Rightarrow> string list \<Rightarrow> string list option" where
  "write_includes i [] out = Some out"
| "write_includes i (include # rest) out =
     (if i + 1 < length out
      then write_includes (i + 1) rest (out[i + 1 := ''!'' @ include])
      else None)"

definition processIncludes :: "string list \<Rightarrow> string list \<Rightarrow> string list option" where
  "processIncludes includes excludes =
     (let out = (if length includes > 0
                 then (replicate (1 + length includes) [])[0 := ''*'']
                 else [])
      in case write_includes 0 includes out of
           None \<Rightarrow> None
         | Some out' \<Rightarrow> Some (out' @ excludes))"

section \<open>An example world\<close>

text \<open>
  A small world to evaluate the model in. Its file system holds the files \<open>a.t\<close> and
  \<open>b.t\<close> and the directory \<open>dir\<close> with the files \<open>x.t\<close>, \<open>y.t\<close> and the directory
  \<open>sub\<close>. Its template engine refuses to compile the text \<open>{{\<close>; executing
  a text that starts with \<open>{{.in}}\<close> writes the \<open>in\<close> entry of the context followed by
  the rest of the text, executing \<open>{{fail}}\<close> fails, and any other text is written as it
  is. Its gatherer makes one descriptor of the inline input when there is one, and
  otherwise one descriptor for each input file, whose contents are the file's name.
\<close>

definition example_Stat :: "string \<Rightarrow> error + FileInfo" where
  "example_Stat p =
     (if p = ''a.t'' \<or> p = ''b.t'' then Inr \<lparr>Name = p, IsDir = False\<rparr>
      else if p = ''dir'' then Inr \<lparr>Name = p, IsDir = True\<rparr>
      else Inl (Error (''stat '' @ p @ '': no such file or directory'')))"

definition example_ReadDir :: "string \<Rightarrow> error + FileInfo list" where
  "example_ReadDir p =
     (if p = ''dir''
      then Inr [\<lparr>Name = ''sub'', IsDir = True\<rparr>, \<lparr>Name = ''x.t'', IsDir = False\<rparr>,
                \<lparr>Name = ''y.t'', IsDir = False\<rparr>]
      else Inl (Error (''open '' @ p @ '': no such file or directory'')))"

definition example_toGoTemplate :: "event list \<Rightarrow> tplate \<Rightarrow> gomplate \<Rightarrow> error + string" where
  "example_toGoTemplate tr t g =
     (if contents t = ''{{'' then Inl (Error ''unclosed action'') else Inr (contents t))"

definition example_Execute :: "event list \<Rightarrow> string \<Rightarrow> writer \<Rightarrow> val \<Rightarrow> string \<times> error option" where
  "example_Execute tr tmpl wr c =
     (if take 7 tmpl = ''{{.in}}''
      then (case c of
              ContextPtr m \<Rightarrow>
                (case m ''in'' of
                   Some (StringValue s) \<Rightarrow> (s @ drop 7 tmpl, None)
                 | _ \<Rightarrow> ([], Some (Error ''no entry in'')))
            | _ \<Rightarrow> ([], Some (Error ''not a map'')))
      else if tmpl = ''{{fail}}'' then ([], Some (Error ''template failed''))
      else (tmpl, None))"

definition example_gatherTemplates :: "event list \<Rightarrow> Config \<Rightarrow> namer \<Rightarrow> error + tplate list" where
  "example_gatherTemplates tr o' nm =
     (if Input o' \<noteq> [] then Inr [\<lparr>name = ''<arg>'', contents = Input o', target = os_Stdout\<rparr>]
      else Inr (map (\<lambda>f. \<lparr>name = f, contents = f, target = OtherWriter (length f) True\<rparr>) (InputFiles o')))"

definition example_world :: "string collaborators" where
  "example_world =
     \<lparr>fs_Stat = example_Stat,
      afero_ReadDir = example_ReadDir,
      toGoTemplate = example_toGoTemplate,
      Execute = example_Execute,
      defaults = (\<lambda>o'. o'),
      data_NewData = (\<lambda>ds hs. Inr (DataHandle 0)),
      createContext = (\<lambda>cs d. Inr (ContextPtr (Map.empty(''X'' \<mapsto> StringValue ''x'')))),
      gatherTemplates = example_gatherTemplates\<rparr>"

definition example_Config :: Config where
  "example_Config =
     \<lparr>Input = [], InputFiles = [], InputDir = [], ExcludeGlob = [], OutputFiles = [],
      OutputDir = ''.'', OutputMap = [], OutMode = [], DataSources = [], DataSourceHeaders = [],
      Contexts = [], LDelim = ''{{'', RDelim = ''}}'', Templates = []\<rparr>"

definition example_gomplate :: gomplate where
  "example_gomplate =
     newGomplate (DataHandle 0) ''{{'' ''}}'' Map.empty (ContextPtr (Map.empty(''X'' \<mapsto> StringValue ''x'')))"

definition start :: world where
  "start = \<lparr>trace = [], Metrics = newMetrics\<rparr>"

section \<open>Properties: the exclude list built from the include globs\<close>

lemma write_includes_fills:
  "i + length incs < length out \<Longrightarrow>
   write_includes i incs out =
     Some (take (i + 1) out @ map (\<lambda>s. ''!'' @ s) incs @ drop (i + 1 + length incs) out)"
proof (induction incs arbitrary: i out)
  case Nil
  then show ?case by simp
next
  case (Cons a incs)
  have len: "i + 1 < length out" using Cons.prems by simp
  have step: "write_includes (i + 1) incs (out[i + 1 := ''!'' @ a]) =
      Some (take (i + 1 + 1) (out[i + 1 := ''!'' @ a]) @ map (\<lambda>s. ''!'' @ s) incs @
            drop (i + 1 + 1 + length incs) (out[i + 1 := ''!'' @ a]))"
    using Cons.prems by (intro Cons.IH) simp
  have t: "take (i + 1 + 1) (out[i + 1 := ''!'' @ a]) = take (i + 1) out @ [''!'' @ a]"
    using len by (simp add: take_Suc_conv_app_nth)
  have d: "drop (i + 1 + 1 + length incs) (out[i + 1 := ''!'' @ a]) =
           drop (i + 1 + length (a # incs)) out"
    by simp
  show ?case using len step t d by simp
qed

text \<open>
  C5. For all include globs \<open>I\<close> and exclude globs \<open>X\<close>, \<open>processIncludes I X\<close> returns
  (without panicking) \<open>X\<close> when \<open>I\<close> is empty, and otherwise the list \<open>"*"\<close>, then
  \<open>"!"\<close> prepended to each element of \<open>I\<close> in order, then the elements of \<open>X\<close> in order.
\<close>

theorem processIncludes_result:
  "processIncludes I X = Some (if I = [] then X else ''*'' # map (\<lambda>s. ''!'' @ s) I @ X)"
proof (cases I)
  case Nil
  then show ?thesis by (simp add: processIncludes_def)
next
  case (Cons a as)
  define out where "out = (replicate (1 + length I) ([]::string))[0 := ''*'']"
  have len: "0 + length I < length out" by (simp add: out_def)
  have w: "write_includes 0 I out =
      Some (take (0 + 1) out @ map (\<lambda>s. ''!'' @ s) I @ drop (0 + 1 + length I) out)"
    using len by (rule write_includes_fills)
  have hd: "take (0 + 1) out = [''*'']" by (simp add: out_def)
  have tl: "drop (0 + 1 + length I) out = []" by (simp add: out_def)
  have "processIncludes I X = Some ((''*'' # map (\<lambda>s. ''!'' @ s) I) @ X)"
    using w hd tl Cons by (simp add: processIncludes_def out_def)
  then show ?thesis using Cons by simp
qed

section \<open>Properties: the loop of \<^verbatim>\<open>path.Clean\<close> computes what the library documents\<close>

text \<open>
  The transcribed loop is compared with the documented rules. One step of the loop on a
  path that starts inside an element consumes that element and changes the buffer as
  \<open>apply_element\<close> changes the elements kept; backtracking in the buffer removes
  exactly the last element kept. So \<^verbatim>\<open>path.Clean\<close> returns \<open>clean_spec\<close> of its
  argument, for every argument; the result is in clean form, and cleaning it again
  changes nothing.
\<close>

lemma clean_loop_Nil: "clean_loop rooted [] out dd = out"
  by (subst clean_loop.simps) (simp del: clean_loop.simps)

lemma clean_loop_step:
  "p \<noteq> [] \<Longrightarrow> clean_step rooted p out dd = (p', out', dd') \<Longrightarrow>
   clean_loop rooted p out dd = clean_loop rooted p' out' dd'"
  by (subst clean_loop.simps) (simp del: clean_loop.simps)

lemma join_sep_append:
  "join_sep (xs @ ys) = join_sep xs @ (if xs = [] \<or> ys = [] then [] else ''/'') @ join_sep ys"
proof (induction xs rule: join_sep.induct)
  case 1
  show ?case by simp
next
  case (2 e)
  show ?case by (cases ys) simp_all
next
  case (3 e e' es)
  then show ?case by simp
qed

lemma join_sep_snoc: "join_sep (st @ [e]) = (if st = [] then e else join_sep st @ ''/'' @ e)"
  by (simp add: join_sep_append)

lemma join_sep_Nil_iff: "\<forall>e \<in> set st. e \<noteq> [] \<Longrightarrow> (join_sep st = []) = (st = [])"
  by (induction st rule: join_sep.induct) auto

lemma takeWhile_snoc_not: "\<not> P e \<Longrightarrow> takeWhile P (bs @ [e]) = takeWhile P bs"
  by (induction bs) auto

lemma dropWhile_snoc_not: "\<not> P e \<Longrightarrow> dropWhile P (bs @ [e]) = dropWhile P bs @ [e]"
  by (induction bs) auto

lemma backtrack_stop: "\<not> (w > dd \<and> out ! w \<noteq> CHR ''/'') \<Longrightarrow> backtrack out dd w = w"
  by (subst backtrack.simps) (auto simp del: backtrack.simps)

lemma backtrack_down:
  assumes "lo \<le> w" and "dd \<le> lo" and "\<forall>j. lo < j \<and> j \<le> w \<longrightarrow> out ! j \<noteq> CHR ''/''"
    and "lo = dd \<or> out ! lo = CHR ''/''"
  shows "backtrack out dd w = lo"
  using assms
proof (induction "w - lo" arbitrary: w)
  case 0
  then have "w = lo" by simp
  moreover have "\<not> (lo > dd \<and> out ! lo \<noteq> CHR ''/'')" using 0 by auto
  ultimately show ?case using backtrack_stop [where w = lo and dd = dd and out = out] by blast
next
  case (Suc k)
  then have w: "w > lo" "w > dd" "out ! w \<noteq> CHR ''/''" by auto
  have "backtrack out dd w = backtrack out dd (w - 1)"
    using w by (subst backtrack.simps) (simp del: backtrack.simps)
  also have "\<dots> = lo" using Suc w by (intro Suc.hyps) (auto simp del: backtrack.simps)
  finally show ?case .
qed

lemma takeWhile_elem_dot:
  "c \<noteq> CHR ''/'' \<Longrightarrow>
   (takeWhile (\<lambda>x. x \<noteq> CHR ''/'') (c # cs) = ''.'') = (c = CHR ''.'' \<and> is_sep_next cs)"
  by (cases cs) (auto simp: is_sep_next_def)

lemma takeWhile_elem_dotdot:
  "c \<noteq> CHR ''/'' \<Longrightarrow>
   (takeWhile (\<lambda>x. x \<noteq> CHR ''/'') (c # cs) = ''..'') =
   (c = CHR ''.'' \<and> cs \<noteq> [] \<and> hd cs = CHR ''.'' \<and> is_sep_next (tl cs))"
proof (cases cs)
  case Nil
  then show ?thesis by simp
next
  case (Cons d ds)
  assume "c \<noteq> CHR ''/''"
  then show ?thesis unfolding Cons by (cases ds) (auto simp: is_sep_next_def)
qed

lemma dropWhile_sep_next: "is_sep_next cs \<Longrightarrow> dropWhile (\<lambda>x. x \<noteq> CHR ''/'') cs = cs"
  by (cases cs) (auto simp: is_sep_next_def)

lemma clean_step_dot:
  assumes "c \<noteq> CHR ''/''" and "takeWhile (\<lambda>x. x \<noteq> CHR ''/'') (c # cs) = ''.''"
  shows "clean_step rooted (c # cs) out dd = (dropWhile (\<lambda>x. x \<noteq> CHR ''/'') (c # cs), out, dd)"
proof -
  have d: "c = CHR ''.'' \<and> is_sep_next cs" using takeWhile_elem_dot [OF assms(1)] assms(2) by blast
  then have r: "dropWhile (\<lambda>x. x \<noteq> CHR ''/'') (c # cs) = cs"
    using assms(1) dropWhile_sep_next [of cs] by simp
  have c1: "(c = CHR ''/'') = False" using assms(1) by simp
  have c2: "(c = CHR ''.'' \<and> is_sep_next cs) = True" using d by simp
  show ?thesis unfolding r clean_step.simps by (simp only: c1 c2 if_True if_False)
qed

lemma clean_step_dotdot:
  assumes "c \<noteq> CHR ''/''" and "takeWhile (\<lambda>x. x \<noteq> CHR ''/'') (c # cs) = ''..''"
  shows "clean_step rooted (c # cs) out dd =
     (dropWhile (\<lambda>x. x \<noteq> CHR ''/'') (c # cs),
      (if length out > dd then take (backtrack out dd (length out - 1)) out
       else if \<not> rooted then (if length out > 0 then out @ ''/'' else out) @ ''..''
       else out),
      (if length out > dd then dd
       else if \<not> rooted then length ((if length out > 0 then out @ ''/'' else out) @ ''..'')
       else dd))"
proof -
  have d: "c = CHR ''.'' \<and> cs \<noteq> [] \<and> hd cs = CHR ''.'' \<and> is_sep_next (tl cs)"
    using takeWhile_elem_dotdot [OF assms(1)] assms(2) by blast
  have nd: "\<not> (c = CHR ''.'' \<and> is_sep_next cs)"
    using takeWhile_elem_dot [OF assms(1), of cs] assms(2) by simp
  have "dropWhile (\<lambda>x. x \<noteq> CHR ''/'') (c # cs) = dropWhile (\<lambda>x. x \<noteq> CHR ''/'') cs"
    using assms(1) by simp
  also have "\<dots> = dropWhile (\<lambda>x. x \<noteq> CHR ''/'') (tl cs)"
    using d by (cases cs) auto
  also have "\<dots> = tl cs" using d dropWhile_sep_next by blast
  finally have r: "dropWhile (\<lambda>x. x \<noteq> CHR ''/'') (c # cs) = tl cs" .
  have c1: "(c = CHR ''/'') = False" using assms(1) by simp
  have c2: "(c = CHR ''.'' \<and> is_sep_next cs) = False" using nd by simp
  have c3: "(c = CHR ''.'' \<and> cs \<noteq> [] \<and> hd cs = CHR ''.'' \<and> is_sep_next (tl cs)) = True" using d by simp
  show ?thesis
    unfolding r clean_step.simps
    by (cases "length out > dd"; cases rooted)
       (simp_all only: c1 c2 c3 if_True if_False not_True_eq_False not_False_eq_True)
qed

lemma clean_step_name:
  assumes "c \<noteq> CHR ''/''" and "takeWhile (\<lambda>x. x \<noteq> CHR ''/'') (c # cs) \<noteq> ''.''"
    and "takeWhile (\<lambda>x. x \<noteq> CHR ''/'') (c # cs) \<noteq> ''..''"
  shows "clean_step rooted (c # cs) out dd =
     (dropWhile (\<lambda>x. x \<noteq> CHR ''/'') (c # cs),
      (if (rooted \<and> length out \<noteq> 1) \<or> (\<not> rooted \<and> length out \<noteq> 0) then out @ ''/'' else out)
        @ takeWhile (\<lambda>x. x \<noteq> CHR ''/'') (c # cs),
      dd)"
proof -
  have c1: "(c = CHR ''/'') = False" using assms(1) by simp
  have c2: "(c = CHR ''.'' \<and> is_sep_next cs) = False"
    using takeWhile_elem_dot [OF assms(1), of cs] assms(2) by simp
  have c3: "(c = CHR ''.'' \<and> cs \<noteq> [] \<and> hd cs = CHR ''.'' \<and> is_sep_next (tl cs)) = False"
    using takeWhile_elem_dotdot [OF assms(1), of cs] assms(3) by simp
  show ?thesis
    unfolding clean_step.simps by (simp only: c1 c2 c3 if_False)
qed

lemma takeWhile_element: "c \<noteq> CHR ''/'' \<Longrightarrow> element (takeWhile (\<lambda>x. x \<noteq> CHR ''/'') (c # cs))"
  unfolding element_def using set_takeWhileD [of "CHR ''/''" "\<lambda>x. x \<noteq> CHR ''/''" "c # cs"] by auto

lemma stack_ok_nonempty: "stack_ok rooted st \<Longrightarrow> \<forall>e \<in> set st. e \<noteq> []"
  by (auto simp: stack_ok_def element_def)

lemma stack_ok_Nil: "stack_ok rooted []"
  by (simp add: stack_ok_def)

lemma dropWhile_dots_Nil_iff:
  assumes "stack_ok rooted st"
  shows "(dropWhile is_dots st = []) = (\<not> (st \<noteq> [] \<and> last st \<noteq> ''..''))"
proof (cases "st = []")
  case True
  then show ?thesis by simp
next
  case False
  show ?thesis
  proof
    assume "dropWhile is_dots st = []"
    then have "\<forall>e \<in> set st. is_dots e" by (simp only: dropWhile_eq_Nil_conv)
    then have "is_dots (last st)" using False last_in_set by blast
    then show "\<not> (st \<noteq> [] \<and> last st \<noteq> ''..'')" by (simp add: is_dots_def)
  next
    assume a: "\<not> (st \<noteq> [] \<and> last st \<noteq> ''..'')"
    show "dropWhile is_dots st = []"
    proof (rule ccontr)
      assume n: "dropWhile is_dots st \<noteq> []"
      have "st = takeWhile is_dots st @ dropWhile is_dots st" by simp
      then have "last st = last (dropWhile is_dots st)" using n by (metis last_appendR)
      then have "last st \<in> set (dropWhile is_dots st)" using n last_in_set by metis
      then have "last st \<noteq> ''..''" using assms by (auto simp: stack_ok_def)
      then show False using a False by simp
    qed
  qed
qed

lemma can_pop_iff:
  assumes "stack_ok rooted st"
  shows "(length (buf_of rooted st) > dd_of rooted st) = (st \<noteq> [] \<and> last st \<noteq> ''..'')"
proof (cases rooted)
  case True
  have ne: "(join_sep st = []) = (st = [])"
    using join_sep_Nil_iff stack_ok_nonempty [OF assms] by blast
  have "''..'' \<notin> set st" using assms True by (simp add: stack_ok_def)
  then have "st \<noteq> [] \<Longrightarrow> last st \<noteq> ''..''"
    using last_in_set [of st] by metis
  then show ?thesis using True ne by (auto simp: buf_of_def dd_of_def)
next
  case False
  have split: "join_sep st = join_sep (takeWhile is_dots st) @
      (if takeWhile is_dots st = [] \<or> dropWhile is_dots st = [] then [] else ''/'') @
      join_sep (dropWhile is_dots st)"
    using join_sep_append [of "takeWhile is_dots st" "dropWhile is_dots st"] by simp
  have "\<forall>e \<in> set (dropWhile is_dots st). e \<noteq> []"
    using stack_ok_nonempty [OF assms] set_dropWhileD by metis
  then have ne: "(join_sep (dropWhile is_dots st) = []) = (dropWhile is_dots st = [])"
    by (rule join_sep_Nil_iff)
  have "(length (join_sep st) > length (join_sep (takeWhile is_dots st))) = (dropWhile is_dots st \<noteq> [])"
    using ne by (subst split) auto
  moreover have "(dropWhile is_dots st \<noteq> []) = (st \<noteq> [] \<and> last st \<noteq> ''..'')"
    using dropWhile_dots_Nil_iff [OF assms] by blast
  ultimately have "(length (join_sep st) > length (join_sep (takeWhile is_dots st))) = (st \<noteq> [] \<and> last st \<noteq> ''..'')"
    by (rule trans)
  then show ?thesis
    using False by (simp only: buf_of_def dd_of_def if_False append_Nil)
qed

lemma stack_ok_butlast:
  assumes "stack_ok rooted (bs @ [e])"
  shows "stack_ok rooted bs"
proof -
  have "set (dropWhile is_dots bs) \<subseteq> set (dropWhile is_dots (bs @ [e]))"
    by (induction bs) auto
  then show ?thesis using assms by (auto simp: stack_ok_def)
qed

lemma length_join_sep_takeWhile: "length (join_sep (takeWhile P bs)) \<le> length (join_sep bs)"
proof -
  have "join_sep bs = join_sep (takeWhile P bs) @
      (if takeWhile P bs = [] \<or> dropWhile P bs = [] then [] else ''/'') @ join_sep (dropWhile P bs)"
    using join_sep_append [of "takeWhile P bs" "dropWhile P bs"] by simp
  then have "length (join_sep bs) = length (join_sep (takeWhile P bs)) +
      length ((if takeWhile P bs = [] \<or> dropWhile P bs = [] then [] else ''/'') @ join_sep (dropWhile P bs))"
    by (metis length_append)
  then show ?thesis by arith
qed

lemma pop_refines:
  assumes ok: "stack_ok rooted (bs @ [e])" and e: "e \<noteq> ''..''"
  shows "take (backtrack (buf_of rooted (bs @ [e])) (dd_of rooted (bs @ [e]))
                 (length (buf_of rooted (bs @ [e])) - 1))
              (buf_of rooted (bs @ [e])) = buf_of rooted bs"
    and "dd_of rooted (bs @ [e]) = dd_of rooted bs"
proof -
  have el: "e \<noteq> []" "CHR ''/'' \<notin> set e" using ok by (auto simp: stack_ok_def element_def)
  have nd: "\<not> is_dots e" using e by (simp add: is_dots_def)
  show dd: "dd_of rooted (bs @ [e]) = dd_of rooted bs"
    using takeWhile_snoc_not [where P = is_dots and e = e and bs = bs] nd by (simp add: dd_of_def)
  define pre where "pre = buf_of rooted bs"
  define out where "out = buf_of rooted (bs @ [e])"
  have out: "out = pre @ (if bs = [] then [] else ''/'') @ e"
    by (simp add: out_def pre_def buf_of_def join_sep_snoc)
  have ddle: "dd_of rooted bs \<le> length pre"
    using length_join_sep_takeWhile [of is_dots bs] by (simp add: dd_of_def pre_def buf_of_def)
  have ddeq: "bs = [] \<Longrightarrow> dd_of rooted bs = length pre"
    by (simp add: dd_of_def pre_def buf_of_def)
  have lo: "length pre \<le> length out - 1" using el(1) out by (cases e) auto
  have chars: "\<forall>j. length pre < j \<and> j \<le> length out - 1 \<longrightarrow> out ! j \<noteq> CHR ''/''"
  proof (intro allI impI)
    fix j assume j: "length pre < j \<and> j \<le> length out - 1"
    show "out ! j \<noteq> CHR ''/''"
    proof (cases "bs = []")
      case True
      then have "out ! j = e ! (j - length pre)" using j out by (simp add: nth_append)
      moreover have "j - length pre < length e" using j out True el(1) by (cases e) auto
      ultimately show ?thesis using el(2) nth_mem by metis
    next
      case False
      then have o: "out = (pre @ ''/'') @ e" using out by simp
      have "out ! j = e ! (j - length (pre @ ''/''))" using j by (subst o, subst nth_append) simp
      moreover have "j - length (pre @ ''/'') < length e" using j o el(1) by (cases e) auto
      ultimately show ?thesis using el(2) nth_mem by metis
    qed
  qed
  have stop: "length pre = dd_of rooted bs \<or> out ! length pre = CHR ''/''"
  proof (cases "bs = []")
    case True
    then show ?thesis using ddeq by simp
  next
    case False
    then show ?thesis using out by (simp add: nth_append)
  qed
  have "backtrack out (dd_of rooted bs) (length out - 1) = length pre"
    using lo ddle chars stop by (rule backtrack_down)
  then show "take (backtrack (buf_of rooted (bs @ [e])) (dd_of rooted (bs @ [e]))
                 (length (buf_of rooted (bs @ [e])) - 1))
              (buf_of rooted (bs @ [e])) = buf_of rooted bs"
    unfolding dd out_def [symmetric] pre_def [symmetric] using out by simp
qed

lemma push_dots_refines:
  assumes ok: "stack_ok False st" and no: "\<not> (st \<noteq> [] \<and> last st \<noteq> ''..'')"
  shows "(if length (buf_of False st) > 0 then buf_of False st @ ''/'' else buf_of False st) @ ''..''
           = buf_of False (st @ [''..''])"
    and "length (buf_of False (st @ [''..''])) = dd_of False (st @ [''..''])"
    and "stack_ok False (st @ [''..''])"
proof -
  have "dropWhile is_dots st = []" using dropWhile_dots_Nil_iff [OF ok] no by blast
  then have all: "\<forall>e \<in> set st. is_dots e" by (simp only: dropWhile_eq_Nil_conv)
  have ne: "(join_sep st = []) = (st = [])"
    using join_sep_Nil_iff stack_ok_nonempty [OF ok] by blast
  show "(if length (buf_of False st) > 0 then buf_of False st @ ''/'' else buf_of False st) @ ''..''
           = buf_of False (st @ [''..''])"
    using ne by (simp add: buf_of_def join_sep_snoc)
  have all': "\<forall>e \<in> set (st @ [''..'']). is_dots e" using all by (simp add: is_dots_def)
  then have t: "takeWhile is_dots (st @ [''..'']) = st @ [''..'']"
    by (simp only: takeWhile_eq_all_conv)
  show "length (buf_of False (st @ [''..''])) = dd_of False (st @ [''..''])"
    unfolding dd_of_def t by (simp add: buf_of_def)
  have d: "dropWhile is_dots (st @ [''..'']) = []"
    using all' by (simp only: dropWhile_eq_Nil_conv)
  show "stack_ok False (st @ [''..''])"
    using ok unfolding stack_ok_def d by (auto simp: element_def)
qed

lemma push_name_refines:
  assumes ok: "stack_ok rooted st" and el: "element e" and e: "e \<noteq> ''.''" "e \<noteq> ''..''"
  shows "(if (rooted \<and> length (buf_of rooted st) \<noteq> 1) \<or> (\<not> rooted \<and> length (buf_of rooted st) \<noteq> 0)
          then buf_of rooted st @ ''/'' else buf_of rooted st) @ e = buf_of rooted (st @ [e])"
    and "dd_of rooted (st @ [e]) = dd_of rooted st"
    and "stack_ok rooted (st @ [e])"
proof -
  have ne: "(join_sep st = []) = (st = [])"
    using join_sep_Nil_iff stack_ok_nonempty [OF ok] by blast
  have nd: "\<not> is_dots e" using e by (simp add: is_dots_def)
  show "(if (rooted \<and> length (buf_of rooted st) \<noteq> 1) \<or> (\<not> rooted \<and> length (buf_of rooted st) \<noteq> 0)
          then buf_of rooted st @ ''/'' else buf_of rooted st) @ e = buf_of rooted (st @ [e])"
    using ne by (cases rooted) (simp_all add: buf_of_def join_sep_snoc)
  show "dd_of rooted (st @ [e]) = dd_of rooted st"
    using takeWhile_snoc_not [where P = is_dots and e = e and bs = st] nd by (simp add: dd_of_def)
  show "stack_ok rooted (st @ [e])"
    using ok el e unfolding stack_ok_def dropWhile_snoc_not [where P = is_dots and e = e and bs = st, OF nd] by auto
qed

lemma clean_step_refines:
  assumes ok: "stack_ok rooted st" and c: "c \<noteq> CHR ''/''"
  shows "clean_step rooted (c # cs) (buf_of rooted st) (dd_of rooted st) =
      (dropWhile (\<lambda>x. x \<noteq> CHR ''/'') (c # cs),
       buf_of rooted (apply_element rooted st (takeWhile (\<lambda>x. x \<noteq> CHR ''/'') (c # cs))),
       dd_of rooted (apply_element rooted st (takeWhile (\<lambda>x. x \<noteq> CHR ''/'') (c # cs))))
    \<and> stack_ok rooted (apply_element rooted st (takeWhile (\<lambda>x. x \<noteq> CHR ''/'') (c # cs)))"
proof -
  define e where "e = takeWhile (\<lambda>x. x \<noteq> CHR ''/'') (c # cs)"
  have el: "element e" unfolding e_def using c by (rule takeWhile_element)
  consider (dot) "e = ''.''" | (dotdot) "e = ''..''" | (name) "e \<noteq> ''.''" "e \<noteq> ''..''" by blast
  then have "clean_step rooted (c # cs) (buf_of rooted st) (dd_of rooted st) =
      (dropWhile (\<lambda>x. x \<noteq> CHR ''/'') (c # cs),
       buf_of rooted (apply_element rooted st e), dd_of rooted (apply_element rooted st e))
    \<and> stack_ok rooted (apply_element rooted st e)"
  proof cases
    case dot
    have a: "apply_element rooted st e = st" using dot by (simp add: apply_element_def)
    show ?thesis
      unfolding a using clean_step_dot [OF c, of cs rooted] dot ok unfolding e_def by blast
  next
    case dotdot
    have step: "clean_step rooted (c # cs) (buf_of rooted st) (dd_of rooted st) =
     (dropWhile (\<lambda>x. x \<noteq> CHR ''/'') (c # cs),
      (if length (buf_of rooted st) > dd_of rooted st
       then take (backtrack (buf_of rooted st) (dd_of rooted st) (length (buf_of rooted st) - 1)) (buf_of rooted st)
       else if \<not> rooted then (if length (buf_of rooted st) > 0 then buf_of rooted st @ ''/'' else buf_of rooted st) @ ''..''
       else buf_of rooted st),
      (if length (buf_of rooted st) > dd_of rooted st then dd_of rooted st
       else if \<not> rooted then length ((if length (buf_of rooted st) > 0 then buf_of rooted st @ ''/'' else buf_of rooted st) @ ''..'')
       else dd_of rooted st))"
      using clean_step_dotdot [OF c, of cs rooted] dotdot unfolding e_def by blast
    show ?thesis
    proof (cases "st \<noteq> [] \<and> last st \<noteq> ''..''")
      case True
      then have pop: "(length (buf_of rooted st) > dd_of rooted st) = True"
        using can_pop_iff [OF ok] by simp
      have a: "apply_element rooted st e = butlast st" using dotdot True by (simp add: apply_element_def)
      have st: "butlast st @ [last st] = st" using True by simp
      have ok': "stack_ok rooted (butlast st @ [last st])" using ok st by simp
      have l: "last st \<noteq> ''..''" using True by simp
      have p1: "take (backtrack (buf_of rooted st) (dd_of rooted st) (length (buf_of rooted st) - 1)) (buf_of rooted st)
           = buf_of rooted (butlast st)"
        using pop_refines(1) [OF ok' l] unfolding st .
      have p2: "dd_of rooted st = dd_of rooted (butlast st)"
        using pop_refines(2) [OF ok' l] unfolding st .
      have p3: "stack_ok rooted (butlast st)" using stack_ok_butlast [OF ok'] .
      have step': "clean_step rooted (c # cs) (buf_of rooted st) (dd_of rooted st) =
          (dropWhile (\<lambda>x. x \<noteq> CHR ''/'') (c # cs),
           take (backtrack (buf_of rooted st) (dd_of rooted st) (length (buf_of rooted st) - 1)) (buf_of rooted st),
           dd_of rooted st)"
        unfolding step by (simp only: pop if_True)
      show ?thesis
        unfolding a step' p1 using p2 p3 by simp
    next
      case False
      then have pop: "(length (buf_of rooted st) > dd_of rooted st) = False"
        using can_pop_iff [OF ok] by simp
      show ?thesis
      proof (cases rooted)
        case True
        have a: "apply_element rooted st e = st" using dotdot False True by (auto simp: apply_element_def)
        have r: "(\<not> rooted) = False" using True by simp
        show ?thesis unfolding a step using ok by (simp only: pop r if_False)
      next
        case nr: False
        have a: "apply_element rooted st e = st @ [''..'']" using dotdot False nr by (auto simp: apply_element_def)
        have r: "(\<not> rooted) = True" using nr by simp
        have rF: "rooted = False" using nr by simp
        have okF: "stack_ok False st" using ok nr by simp
        have pd: "(if length (buf_of rooted st) > 0 then buf_of rooted st @ ''/'' else buf_of rooted st) @ ''..''
             = buf_of rooted (st @ [''..''])"
          "length (buf_of rooted (st @ [''..''])) = dd_of rooted (st @ [''..''])"
          "stack_ok rooted (st @ [''..''])"
          unfolding rF by (rule push_dots_refines [OF okF False])+
        have step': "clean_step rooted (c # cs) (buf_of rooted st) (dd_of rooted st) =
          (dropWhile (\<lambda>x. x \<noteq> CHR ''/'') (c # cs),
           (if length (buf_of rooted st) > 0 then buf_of rooted st @ ''/'' else buf_of rooted st) @ ''..'',
           length ((if length (buf_of rooted st) > 0 then buf_of rooted st @ ''/'' else buf_of rooted st) @ ''..''))"
          unfolding step by (simp only: pop r if_True if_False)
        show ?thesis
          unfolding a step' pd(1) using pd(2,3) by simp
      qed
    qed
  next
    case name
    have a: "apply_element rooted st e = st @ [e]" using name by (simp add: apply_element_def)
    note pn = push_name_refines [OF ok el name]
    show ?thesis
      unfolding a using clean_step_name [OF c, of cs rooted] name pn unfolding e_def by simp
  qed
  then show ?thesis unfolding e_def .
qed

lemma clean_loop_refines:
  "stack_ok rooted st \<Longrightarrow>
   clean_loop rooted p (buf_of rooted st) (dd_of rooted st) =
     buf_of rooted (foldl (apply_element rooted) st (path_elements p))
   \<and> stack_ok rooted (foldl (apply_element rooted) st (path_elements p))"
proof (induction p arbitrary: st rule: length_induct)
  case (1 p)
  note ok = \<open>stack_ok rooted st\<close>
  show ?case
  proof (cases p)
    case Nil
    show ?thesis unfolding Nil using ok by (simp add: clean_loop_Nil del: clean_loop.simps)
  next
    case (Cons c cs)
    show ?thesis
    proof (cases "c = CHR ''/''")
      case True
      have s: "clean_step rooted p (buf_of rooted st) (dd_of rooted st) = (cs, buf_of rooted st, dd_of rooted st)"
        unfolding Cons using True by simp
      have ne: "p \<noteq> []" using Cons by simp
      have "clean_loop rooted p (buf_of rooted st) (dd_of rooted st) =
            clean_loop rooted cs (buf_of rooted st) (dd_of rooted st)"
        using ne s by (rule clean_loop_step)
      moreover have "path_elements p = path_elements cs" unfolding Cons using True by simp
      moreover have "length cs < length p" using Cons by simp
      ultimately show ?thesis using 1 by simp
    next
      case False
      define e where "e = takeWhile (\<lambda>x. x \<noteq> CHR ''/'') (c # cs)"
      define rest where "rest = dropWhile (\<lambda>x. x \<noteq> CHR ''/'') (c # cs)"
      have s: "clean_step rooted p (buf_of rooted st) (dd_of rooted st) =
          (rest, buf_of rooted (apply_element rooted st e), dd_of rooted (apply_element rooted st e))"
        and ok': "stack_ok rooted (apply_element rooted st e)"
        using clean_step_refines [OF ok False, of cs] unfolding Cons e_def rest_def by blast+
      have ne: "p \<noteq> []" using Cons by simp
      have l: "clean_loop rooted p (buf_of rooted st) (dd_of rooted st) =
            clean_loop rooted rest (buf_of rooted (apply_element rooted st e)) (dd_of rooted (apply_element rooted st e))"
        using ne s by (rule clean_loop_step)
      have pe: "path_elements p = e # path_elements rest"
        unfolding Cons e_def rest_def using False by simp
      have sh: "length rest < length p"
        unfolding Cons rest_def using False by (rule dropWhile_sep_shorter)
      have ih: "clean_loop rooted rest (buf_of rooted (apply_element rooted st e)) (dd_of rooted (apply_element rooted st e)) =
          buf_of rooted (foldl (apply_element rooted) (apply_element rooted st e) (path_elements rest))
        \<and> stack_ok rooted (foldl (apply_element rooted) (apply_element rooted st e) (path_elements rest))"
        using 1 sh ok' by blast
      show ?thesis unfolding l pe using ih by simp
    qed
  qed
qed

lemma path_Clean_spec: "path_Clean p = clean_spec p"
proof (cases p)
  case Nil
  show ?thesis unfolding Nil by (simp add: path_Clean_def clean_spec_def clean_elements_def)
next
  case (Cons c cs)
  show ?thesis
  proof (cases "c = CHR ''/''")
    case True
    have "clean_loop True cs (buf_of True []) (dd_of True []) =
        buf_of True (foldl (apply_element True) [] (path_elements cs))"
      using clean_loop_refines [OF stack_ok_Nil, of True cs] by blast
    then have "clean_loop True cs ''/'' 1 = CHR ''/'' # join_sep (clean_elements True (path_elements cs))"
      by (simp add: buf_of_def dd_of_def clean_elements_def del: clean_loop.simps)
    then show ?thesis
      unfolding Cons using True
      by (simp add: path_Clean_def clean_spec_def Let_def del: clean_loop.simps)
  next
    case False
    have r: "clean_loop False p (buf_of False []) (dd_of False []) =
        buf_of False (foldl (apply_element False) [] (path_elements p))"
      and ok: "stack_ok False (foldl (apply_element False) [] (path_elements p))"
      using clean_loop_refines [OF stack_ok_Nil, of False p] by blast+
    have l: "clean_loop False p [] 0 = join_sep (clean_elements False (path_elements p))"
      using r by (simp add: buf_of_def dd_of_def clean_elements_def del: clean_loop.simps)
    have ne: "(join_sep (clean_elements False (path_elements p)) = []) = (clean_elements False (path_elements p) = [])"
      using join_sep_Nil_iff stack_ok_nonempty [OF ok] unfolding clean_elements_def by blast
    have pc: "path_Clean p = (if clean_loop False p [] 0 = [] then ''.'' else clean_loop False p [] 0)"
      unfolding Cons using False by (simp add: path_Clean_def Let_def del: clean_loop.simps)
    have cs: "clean_spec p = (if clean_elements False (path_elements p) = [] then ''.''
        else join_sep (clean_elements False (path_elements p)))"
      unfolding Cons using False by (simp add: clean_spec_def Let_def del: path_elements.simps)
    show ?thesis unfolding pc cs l using ne by simp
  qed
qed

lemma path_elements_element:
  assumes "element e"
  shows "path_elements (e @ CHR ''/'' # rest) = e # path_elements rest"
    and "path_elements e = [e]"
proof -
  from assms obtain c cs where e: "e = c # cs" by (cases e) (auto simp: element_def)
  have ns: "\<forall>x \<in> set (c # cs). x \<noteq> CHR ''/''" using assms e by (auto simp: element_def)
  then have c: "c \<noteq> CHR ''/''" by simp
  have t1: "takeWhile (\<lambda>x. x \<noteq> CHR ''/'') ((c # cs) @ CHR ''/'' # rest) = c # cs"
    using ns by (subst takeWhile_append2) auto
  have d1: "dropWhile (\<lambda>x. x \<noteq> CHR ''/'') ((c # cs) @ CHR ''/'' # rest) = CHR ''/'' # rest"
    using ns by (subst dropWhile_append2) auto
  have t2: "takeWhile (\<lambda>x. x \<noteq> CHR ''/'') (c # cs) = c # cs"
    using ns by (simp only: takeWhile_eq_all_conv)
  have d2: "dropWhile (\<lambda>x. x \<noteq> CHR ''/'') (c # cs) = []"
    using ns by (simp only: dropWhile_eq_Nil_conv)
  have "path_elements ((c # cs) @ CHR ''/'' # rest) =
      takeWhile (\<lambda>x. x \<noteq> CHR ''/'') ((c # cs) @ CHR ''/'' # rest)
        # path_elements (dropWhile (\<lambda>x. x \<noteq> CHR ''/'') ((c # cs) @ CHR ''/'' # rest))"
    using c by (simp del: takeWhile.simps dropWhile.simps takeWhile_append dropWhile_append)
  then show "path_elements (e @ CHR ''/'' # rest) = e # path_elements rest"
    unfolding e t1 d1 by simp
  have "path_elements (c # cs) =
      takeWhile (\<lambda>x. x \<noteq> CHR ''/'') (c # cs) # path_elements (dropWhile (\<lambda>x. x \<noteq> CHR ''/'') (c # cs))"
    using c by (simp del: takeWhile.simps dropWhile.simps)
  then show "path_elements e = [e]" unfolding e t2 d2 by simp
qed

lemma path_elements_join_sep:
  "\<forall>e \<in> set st. element e \<Longrightarrow> path_elements (join_sep st) = st"
proof (induction st rule: join_sep.induct)
  case 1
  show ?case by simp
next
  case (2 e)
  then show ?case using path_elements_element(2) [of e] by simp
next
  case (3 e e' es)
  then have "element e" and ih: "path_elements (join_sep (e' # es)) = e' # es" by simp_all
  then show ?case using path_elements_element(1) [of e "join_sep (e' # es)"] by simp
qed

lemma clean_elements_fixed:
  "stack_ok rooted st \<Longrightarrow> clean_elements rooted st = st"
proof (induction st rule: rev_induct)
  case Nil
  show ?case by (simp add: clean_elements_def)
next
  case (snoc e bs)
  have ih: "clean_elements rooted bs = bs" using snoc stack_ok_butlast by blast
  have ne: "e \<noteq> ''.''" using snoc(2) by (auto simp: stack_ok_def)
  have a: "apply_element rooted bs e = bs @ [e]"
  proof (cases "e = ''..''")
    case False
    then show ?thesis using ne by (simp add: apply_element_def)
  next
    case True
    have nr: "\<not> rooted" using snoc(2) True by (auto simp: stack_ok_def)
    have "dropWhile is_dots (bs @ [e]) = []"
      using dropWhile_dots_Nil_iff [OF snoc(2)] True by simp
    then have "\<forall>x \<in> set (bs @ [e]). is_dots x" by (simp only: dropWhile_eq_Nil_conv)
    then have "bs \<noteq> [] \<Longrightarrow> last bs = ''..''" using last_in_set [of bs] by (auto simp: is_dots_def)
    then show ?thesis using True nr by (auto simp: apply_element_def)
  qed
  show ?case using ih a by (simp add: clean_elements_def)
qed

lemma clean_elements_ok: "stack_ok rooted (clean_elements rooted (path_elements p))"
  unfolding clean_elements_def using clean_loop_refines [OF stack_ok_Nil, of rooted p] by blast

lemma stack_ok_elements: "stack_ok rooted st \<Longrightarrow> \<forall>e \<in> set st. element e"
  by (simp add: stack_ok_def)

lemma hd_join_sep:
  assumes "stack_ok rooted st" and "st \<noteq> []"
  shows "join_sep st \<noteq> []" and "hd (join_sep st) \<noteq> CHR ''/''"
proof -
  obtain e es where st: "st = e # es" using assms(2) by (cases st) auto
  have "element e" using assms(1) st by (simp add: stack_ok_def)
  then obtain c cs where e: "e = c # cs" "c \<noteq> CHR ''/''" by (cases e) (auto simp: element_def)
  show "join_sep st \<noteq> []" unfolding st e by (cases es) simp_all
  show "hd (join_sep st) \<noteq> CHR ''/''" unfolding st e using e(2) by (cases es) simp_all
qed

lemma clean_spec_cases:
  obtains (root) st where "stack_ok True st" and "clean_spec p = CHR ''/'' # join_sep st"
      and "st = clean_elements True (path_elements p)" and "p \<noteq> []" and "hd p = CHR ''/''"
    | (dot) "clean_spec p = ''.''" and "clean_elements False (path_elements p) = []"
      and "\<not> (p \<noteq> [] \<and> hd p = CHR ''/'')"
    | (rel) st where "stack_ok False st" and "st \<noteq> []" and "clean_spec p = join_sep st"
      and "st = clean_elements False (path_elements p)" and "\<not> (p \<noteq> [] \<and> hd p = CHR ''/'')"
proof (cases "p \<noteq> [] \<and> hd p = CHR ''/''")
  case True
  then have r: "(p \<noteq> [] \<and> hd p = CHR ''/'') = True" by simp
  have "clean_spec p = CHR ''/'' # join_sep (clean_elements True (path_elements p))"
    unfolding clean_spec_def Let_def r by (simp only: if_True)
  then show ?thesis using root clean_elements_ok [of True p] True by blast
next
  case False
  then have r: "(p \<noteq> [] \<and> hd p = CHR ''/'') = False" by simp
  have c: "clean_spec p = (if clean_elements False (path_elements p) = [] then ''.''
      else join_sep (clean_elements False (path_elements p)))"
    unfolding clean_spec_def Let_def r by (simp only: if_False)
  show ?thesis
  proof (cases "clean_elements False (path_elements p) = []")
    case True
    then show ?thesis using c dot False by simp
  next
    case ne: False
    then show ?thesis using c rel clean_elements_ok [of False p] False by simp
  qed
qed

lemma clean_spec_dot: "clean_spec ''.'' = ''.''"
  by (simp add: clean_spec_def clean_elements_def apply_element_def)

lemma clean_spec_idem: "clean_spec (clean_spec p) = clean_spec p"
proof (cases p rule: clean_spec_cases)
  case (root st)
  have pe: "path_elements (CHR ''/'' # join_sep st) = st"
    using path_elements_join_sep [OF stack_ok_elements [OF root(1)]] by simp
  have r: "(CHR ''/'' # join_sep st \<noteq> [] \<and> hd (CHR ''/'' # join_sep st) = CHR ''/'') = True" by simp
  have "clean_spec (CHR ''/'' # join_sep st) = CHR ''/'' # join_sep (clean_elements True st)"
    unfolding clean_spec_def Let_def pe r by (simp only: if_True)
  then show ?thesis unfolding root(2) using clean_elements_fixed [OF root(1)] by simp
next
  case dot
  then show ?thesis using clean_spec_dot by simp
next
  case (rel st)
  have pe: "path_elements (join_sep st) = st"
    using path_elements_join_sep [OF stack_ok_elements [OF rel(1)]] .
  have nr: "(join_sep st \<noteq> [] \<and> hd (join_sep st) = CHR ''/'') = False"
    using hd_join_sep [OF rel(1,2)] by simp
  have "clean_spec (join_sep st) = (if clean_elements False st = [] then ''.'' else join_sep (clean_elements False st))"
    unfolding clean_spec_def Let_def pe nr by (simp only: if_False)
  then show ?thesis unfolding rel(3) using clean_elements_fixed [OF rel(1)] rel(2) by simp
qed

lemma clean_spec_cleaned: "cleaned (clean_spec p)"
proof (cases p rule: clean_spec_cases)
  case (root st)
  have pe: "path_elements (CHR ''/'' # join_sep st) = st"
    using path_elements_join_sep [OF stack_ok_elements [OF root(1)]] by simp
  have "''.'' \<notin> set st" "''..'' \<notin> set st" using root(1) by (auto simp: stack_ok_def)
  moreover have "set (dropWhile (\<lambda>e. e = ''..'') st) \<subseteq> set st" by (auto dest: set_dropWhileD)
  ultimately show ?thesis unfolding root(2) cleaned_def Let_def pe by auto
next
  case dot
  then show ?thesis by (simp add: cleaned_def)
next
  case (rel st)
  have pe: "path_elements (join_sep st) = st"
    using path_elements_join_sep [OF stack_ok_elements [OF rel(1)]] .
  have nr: "join_sep st \<noteq> []" "hd (join_sep st) \<noteq> CHR ''/''"
    using hd_join_sep [OF rel(1,2)] by simp_all
  have d: "is_dots = (\<lambda>e. e = ''..'')" by (rule ext) (simp add: is_dots_def)
  have "''.'' \<notin> set st" "''..'' \<notin> set (dropWhile (\<lambda>e. e = ''..'') st)"
    using rel(1) unfolding stack_ok_def d by auto
  then show ?thesis unfolding rel(3) cleaned_def Let_def pe using nr by simp
qed

lemma join_elems_two: "join_elems [a, b] [] = (if a = [] then b else a @ ''/'' @ b)"
  by simp

lemma path_Join_two:
  "path_Clean (path_Join [a, b]) = clean_spec (if a = [] then b else a @ ''/'' @ b)"
proof (cases "concat [a, b] = []")
  case True
  then have ab: "a = []" "b = []" by simp_all
  have j: "path_Join [[], []] = []" by (simp add: path_Join_def)
  have e: "clean_spec [] = ''.''" by (simp add: clean_spec_def clean_elements_def)
  show ?thesis unfolding ab j path_Clean_spec by (simp add: e)
next
  case False
  then have "path_Join [a, b] = clean_spec (if a = [] then b else a @ ''/'' @ b)"
    unfolding path_Join_def join_elems_two path_Clean_spec by (simp only: if_False)
  then show ?thesis unfolding path_Clean_spec using clean_spec_idem by simp
qed

section \<open>Properties: \<^verbatim>\<open>strings.TrimSpace\<close> removes the white space at both ends\<close>

text \<open>
  The text is the trimmed text between two runs of white-space sequences, and the
  trimmed text neither starts nor ends with a white-space sequence.
\<close>

lemma space_prefix_Some:
  assumes "space_prefix s = Some ws"
  shows "ws \<in> set white_space" and "s = ws @ drop (length ws) s"
proof -
  from assms show m: "ws \<in> set white_space" by (auto simp: space_prefix_def find_Some_iff)
  from assms have t: "take (length ws) s = ws" by (auto simp: space_prefix_def find_Some_iff)
  have "s = take (length ws) s @ drop (length ws) s" by simp
  then show "s = ws @ drop (length ws) s" by (simp only: t)
qed

lemma space_suffix_Some:
  assumes "space_suffix s = Some ws"
  shows "ws \<in> set white_space" and "s = take (length s - length ws) s @ ws"
proof -
  from assms show m: "ws \<in> set white_space" by (auto simp: space_suffix_def find_Some_iff)
  from assms have t: "drop (length s - length ws) s = ws" by (auto simp: space_suffix_def find_Some_iff)
  have "s = take (length s - length ws) s @ drop (length s - length ws) s" by simp
  then show "s = take (length s - length ws) s @ ws" by (simp only: t)
qed

lemma trim_left_None: "space_prefix s = None \<Longrightarrow> trim_left s = s"
  by (subst trim_left.simps) (simp del: trim_left.simps)

lemma trim_left_Some: "space_prefix s = Some ws \<Longrightarrow> trim_left s = trim_left (drop (length ws) s)"
  by (subst trim_left.simps) (simp del: trim_left.simps)

lemma trim_right_None: "space_suffix s = None \<Longrightarrow> trim_right s = s"
  by (subst trim_right.simps) (simp del: trim_right.simps)

lemma trim_right_Some: "space_suffix s = Some ws \<Longrightarrow> trim_right s = trim_right (take (length s - length ws) s)"
  by (subst trim_right.simps) (simp del: trim_right.simps)

lemma trim_left_spec:
  "(\<exists>ls. set ls \<subseteq> set white_space \<and> s = concat ls @ trim_left s) \<and> space_prefix (trim_left s) = None"
proof (induction s rule: trim_left.induct)
  case (1 s)
  show ?case
  proof (cases "space_prefix s")
    case None
    have "set [] \<subseteq> set white_space \<and> s = concat [] @ trim_left s"
      using trim_left_None [OF None] by simp
    then have "\<exists>ls. set ls \<subseteq> set white_space \<and> s = concat ls @ trim_left s" by (rule exI)
    then show ?thesis using None trim_left_None [OF None] by simp
  next
    case (Some ws)
    note t = trim_left_Some [OF Some]
    from 1 [OF Some] obtain ls where ls: "set ls \<subseteq> set white_space"
      "drop (length ws) s = concat ls @ trim_left (drop (length ws) s)"
      and n: "space_prefix (trim_left (drop (length ws) s)) = None" by blast
    have "s = ws @ drop (length ws) s" using space_prefix_Some(2) [OF Some] .
    also have "\<dots> = ws @ concat ls @ trim_left (drop (length ws) s)" using ls(2) by simp
    finally have "s = concat (ws # ls) @ trim_left s" unfolding t by simp
    moreover have "set (ws # ls) \<subseteq> set white_space" using ls(1) space_prefix_Some(1) [OF Some] by simp
    ultimately have "\<exists>ls. set ls \<subseteq> set white_space \<and> s = concat ls @ trim_left s" by blast
    then show ?thesis using n unfolding t by blast
  qed
qed

lemma trim_right_spec:
  "(\<exists>rs. set rs \<subseteq> set white_space \<and> s = trim_right s @ concat rs) \<and> space_suffix (trim_right s) = None"
proof (induction s rule: trim_right.induct)
  case (1 s)
  show ?case
  proof (cases "space_suffix s")
    case None
    have "set [] \<subseteq> set white_space \<and> s = trim_right s @ concat []"
      using trim_right_None [OF None] by simp
    then have "\<exists>rs. set rs \<subseteq> set white_space \<and> s = trim_right s @ concat rs" by (rule exI)
    then show ?thesis using None trim_right_None [OF None] by simp
  next
    case (Some ws)
    note t = trim_right_Some [OF Some]
    from 1 [OF Some] obtain rs where rs: "set rs \<subseteq> set white_space"
      "take (length s - length ws) s = trim_right (take (length s - length ws) s) @ concat rs"
      and n: "space_suffix (trim_right (take (length s - length ws) s)) = None" by blast
    have "s = take (length s - length ws) s @ ws" using space_suffix_Some(2) [OF Some] .
    also have "\<dots> = (trim_right (take (length s - length ws) s) @ concat rs) @ ws" using rs(2) by simp
    finally have "s = trim_right s @ concat (rs @ [ws])" unfolding t by simp
    moreover have "set (rs @ [ws]) \<subseteq> set white_space" using rs(1) space_suffix_Some(1) [OF Some] by simp
    ultimately have "\<exists>rs. set rs \<subseteq> set white_space \<and> s = trim_right s @ concat rs" by blast
    then show ?thesis using n unfolding t by blast
  qed
qed

lemma space_prefix_None_iff:
  "(space_prefix s = None) = (\<forall>ws \<in> set white_space. take (length ws) s \<noteq> ws)"
  by (auto simp: space_prefix_def find_None_iff)

lemma space_suffix_None_iff:
  "(space_suffix s = None) = (\<forall>ws \<in> set white_space. drop (length s - length ws) s \<noteq> ws)"
  by (auto simp: space_suffix_def find_None_iff)

lemma no_prefix_of_prefix:
  assumes "space_prefix (t @ r) = None"
  shows "space_prefix t = None"
proof -
  have "\<forall>ws \<in> set white_space. take (length ws) t \<noteq> ws"
  proof
    fix ws assume m: "ws \<in> set white_space"
    show "take (length ws) t \<noteq> ws"
    proof
      assume e: "take (length ws) t = ws"
      have "length (take (length ws) t) = length ws" by (rule arg_cong [where f = length, OF e])
      then have "min (length t) (length ws) = length ws" by (simp only: length_take)
      then have "length ws \<le> length t" by arith
      then have "take (length ws) (t @ r) = take (length ws) t" by simp
      then have "take (length ws) (t @ r) = ws" using e by (rule trans)
      then show False using assms m unfolding space_prefix_None_iff by blast
    qed
  qed
  then show ?thesis unfolding space_prefix_None_iff .
qed

lemma strings_TrimSpace_spec:
  "(\<exists>ls rs. set ls \<subseteq> set white_space \<and> set rs \<subseteq> set white_space \<and>
       s = concat ls @ strings_TrimSpace s @ concat rs)
   \<and> (\<forall>ws \<in> set white_space.
         take (length ws) (strings_TrimSpace s) \<noteq> ws \<and>
         drop (length (strings_TrimSpace s) - length ws) (strings_TrimSpace s) \<noteq> ws)"
proof -
  obtain ls where ls: "set ls \<subseteq> set white_space" "s = concat ls @ trim_left s"
    and nl: "space_prefix (trim_left s) = None"
    using trim_left_spec [of s] by blast
  obtain rs where rs: "set rs \<subseteq> set white_space" "trim_left s = trim_right (trim_left s) @ concat rs"
    and nr: "space_suffix (trim_right (trim_left s)) = None"
    using trim_right_spec [of "trim_left s"] by blast
  have "space_prefix (trim_right (trim_left s) @ concat rs) = None" using nl rs(2) by simp
  then have np: "space_prefix (trim_right (trim_left s)) = None" by (rule no_prefix_of_prefix)
  have "s = concat ls @ trim_right (trim_left s) @ concat rs" using ls(2) rs(2) by simp
  then have "\<exists>ls rs. set ls \<subseteq> set white_space \<and> set rs \<subseteq> set white_space \<and>
       s = concat ls @ strings_TrimSpace s @ concat rs"
    unfolding strings_TrimSpace_def using ls(1) rs(1) by blast
  moreover have "\<forall>ws \<in> set white_space.
         take (length ws) (strings_TrimSpace s) \<noteq> ws \<and>
         drop (length (strings_TrimSpace s) - length ws) (strings_TrimSpace s) \<noteq> ws"
    unfolding strings_TrimSpace_def
    using np nr unfolding space_prefix_None_iff space_suffix_None_iff by blast
  ultimately show ?thesis by (rule conjI)
qed

section \<open>Properties: the static namer and the choice of strategy\<close>

text \<open>
  C7. For every output directory and every input path \<open>p\<close>, the closure of
  \<^verbatim>\<open>simpleNamer\<close> returns \<^verbatim>\<open>filepath.Clean(filepath.Join(outDir, p))\<close> and no error, and
  it leaves the world as it found it: the result depends on nothing but \<open>outDir\<close> and
  \<open>p\<close>. The path returned is what the library documents for the text \<open>outDir/p\<close>
  (for \<open>p\<close> alone when \<open>outDir\<close> is empty): the elements of that text, without the
  empty and the \<open>.\<close> elements, each \<open>..\<close> element resolved against the element
  before it, written with single separators. It is in clean form: no \<open>.\<close> element is
  left in it, and a \<open>..\<close> element only at the front of a relative path.
\<close>

theorem simpleNamer_output:
  "call_namer E (simpleNamer outDir) p w = (Inr (filepath_Clean (filepath_Join [outDir, p])), w)
   \<and> filepath_Clean (filepath_Join [outDir, p]) = clean_spec (if outDir = [] then p else outDir @ ''/'' @ p)
   \<and> cleaned (filepath_Clean (filepath_Join [outDir, p]))"
proof -
  have r: "filepath_Clean (filepath_Join [outDir, p]) = clean_spec (if outDir = [] then p else outDir @ ''/'' @ p)"
    unfolding filepath_Clean_def filepath_Join_def by (rule path_Join_two)
  have c: "cleaned (filepath_Clean (filepath_Join [outDir, p]))"
    unfolding r by (rule clean_spec_cleaned)
  have n: "call_namer E (simpleNamer outDir) p w = (Inr (filepath_Clean (filepath_Join [outDir, p])), w)"
    by (simp add: simpleNamer_def)
  from n r c show ?thesis by (intro conjI)
qed

text \<open>
  The path \<open>.\<close> names the output directory itself; \<open>.\<close> and \<open>..\<close> elements are
  resolved; a \<open>..\<close> may lead out of the output directory, and stops at the root.
\<close>

theorem simpleNamer_output_witness:
  "call_namer example_world (simpleNamer ''out'') ''.'' start = (Inr ''out'', start)
   \<and> call_namer example_world (simpleNamer ''out'') ''a/../b/./c.txt'' start = (Inr ''out/b/c.txt'', start)
   \<and> call_namer example_world (simpleNamer ''out'') ''../../x'' start = (Inr ''../x'', start)
   \<and> call_namer example_world (simpleNamer ''/out/'') ''../../../x'' start = (Inr ''/x'', start)
   \<and> call_namer example_world (simpleNamer []) ''a//b/'' start = (Inr ''a/b'', start)
   \<and> clean_spec ''out/a/../b/./c.txt'' = ''out/b/c.txt''
   \<and> clean_spec ''out/../../x'' = ''../x''
   \<and> clean_spec ''/out//../../../x'' = ''/x''
   \<and> cleaned ''out/b/c.txt'' \<and> cleaned ''../x'' \<and> cleaned ''/x''"
proof -
  have f: "filepath_Clean (filepath_Join [''out'', ''.'']) = ''out''"
    "filepath_Clean (filepath_Join [''out'', ''a/../b/./c.txt'']) = ''out/b/c.txt''"
    "filepath_Clean (filepath_Join [''out'', ''../../x'']) = ''../x''"
    "filepath_Clean (filepath_Join [''/out/'', ''../../../x'']) = ''/x''"
    "filepath_Clean (filepath_Join [[], ''a//b/'']) = ''a/b''"
    by (simp_all add: filepath_Clean_def filepath_Join_def path_Join_def path_Clean_def is_sep_next_def)
  note i1 = simpleNamer_output [of example_world "''out''" "''.''" start]
  note i2 = simpleNamer_output [of example_world "''out''" "''a/../b/./c.txt''" start]
  note i3 = simpleNamer_output [of example_world "''out''" "''../../x''" start]
  note i4 = simpleNamer_output [of example_world "''/out/''" "''../../../x''" start]
  note i5 = simpleNamer_output [of example_world "[]" "''a//b/''" start]
  have s: "clean_spec ''out/a/../b/./c.txt'' = ''out/b/c.txt''"
    "clean_spec ''out/../../x'' = ''../x''"
    "clean_spec ''/out//../../../x'' = ''/x''"
    using i2 [THEN conjunct2, THEN conjunct1, unfolded f] i3 [THEN conjunct2, THEN conjunct1, unfolded f]
      i4 [THEN conjunct2, THEN conjunct1, unfolded f]
    by simp_all
  from i1 [THEN conjunct1, unfolded f] i2 [THEN conjunct1, unfolded f] i3 [THEN conjunct1, unfolded f]
    i4 [THEN conjunct1, unfolded f] i5 [THEN conjunct1, unfolded f] s
    i2 [THEN conjunct2, THEN conjunct2, unfolded f] i3 [THEN conjunct2, THEN conjunct2, unfolded f]
    i4 [THEN conjunct2, THEN conjunct2, unfolded f]
  show ?thesis by (intro conjI)
qed

text \<open>
  C10. \<^verbatim>\<open>chooseNamer\<close> looks at nothing but whether \<^verbatim>\<open>OutputMap\<close> is the empty string:
  it returns the closure of \<^verbatim>\<open>simpleNamer\<close> over \<^verbatim>\<open>OutputDir\<close> exactly when
  \<^verbatim>\<open>OutputMap\<close> is empty and the closure of \<^verbatim>\<open>mappingNamer\<close> over \<^verbatim>\<open>OutputMap\<close>
  exactly when it is not. A configuration whose \<^verbatim>\<open>OutputMap\<close> is set to the empty string
  names outputs as the static strategy does (an unset \<^verbatim>\<open>OutputMap\<close> is the empty string:
  the field is a Go string).
\<close>

theorem chooseNamer_strategy:
  "chooseNamer o' g = (if OutputMap o' = [] then simpleNamer (OutputDir o') else mappingNamer (OutputMap o') g)
   \<and> ((\<exists>outDir. chooseNamer o' g = simpleNamer outDir) \<longleftrightarrow> OutputMap o' = [])
   \<and> ((\<exists>outMap g'. chooseNamer o' g = mappingNamer outMap g') \<longleftrightarrow> OutputMap o' \<noteq> [])
   \<and> call_namer E (chooseNamer (o'\<lparr>OutputMap := []\<rparr>) g) p w = call_namer E (simpleNamer (OutputDir o')) p w"
  by (auto simp add: chooseNamer_def simpleNamer_def mappingNamer_def)

section \<open>Properties: closing the target\<close>

lemma runTemplate_compile_error:
  "toGoTemplate E (trace w) t g = Inl e \<Longrightarrow>
   runTemplate E g t w = (Some e, w\<lparr>trace := trace w @ [Compiled t (Some e)]\<rparr>)"
  by (simp add: runTemplate_def emit_def)

lemma runTemplate_executed:
  assumes "toGoTemplate E (trace w) t g = Inr tmpl"
    and "Execute E (trace w @ [Compiled t None]) tmpl (target t) (context' g) = (out, err)"
  shows "runTemplate E g t w =
     (err, w\<lparr>trace := trace w @ [Compiled t None, Executed t (context' g) out err] @
                 (if is_Closer (target t) \<and> target t \<noteq> os_Stdout then [Closed (target t)] else [])\<rparr>)"
  using assms by (simp add: runTemplate_def emit_def Let_def)

text \<open>
  C9. When the descriptor compiles, \<^verbatim>\<open>runTemplate\<close> executes the template and then
  closes the target if and only if the target's type implements \<^verbatim>\<open>io.Closer\<close> and the
  target is not \<^verbatim>\<open>os.Stdout\<close>: the events of the call are the compilation, the
  execution and, under that condition only, the \<^verbatim>\<open>Close\<close> of the target. For every
  descriptor, compiled or not, no event of the call closes \<^verbatim>\<open>os.Stdout\<close>.
\<close>

theorem runTemplate_closes_target:
  "(\<forall>tmpl out err.
      toGoTemplate E (trace w) t g = Inr tmpl \<and>
      Execute E (trace w @ [Compiled t None]) tmpl (target t) (context' g) = (out, err) \<longrightarrow>
      events_since w (snd (runTemplate E g t w)) =
        [Compiled t None, Executed t (context' g) out err] @
        (if is_Closer (target t) \<and> target t \<noteq> os_Stdout then [Closed (target t)] else []))
   \<and> Closed os_Stdout \<notin> set (events_since w (snd (runTemplate E g t w)))"
proof (cases "toGoTemplate E (trace w) t g")
  case (Inl e)
  then show ?thesis
    by (simp add: runTemplate_compile_error events_since_def)
next
  case (Inr tmpl)
  obtain out err where ex: "Execute E (trace w @ [Compiled t None]) tmpl (target t) (context' g) = (out, err)"
    by (cases "Execute E (trace w @ [Compiled t None]) tmpl (target t) (context' g)") 
  show ?thesis
    using runTemplate_executed [OF Inr ex] Inr ex
    by (auto simp add: events_since_def)
qed

theorem runTemplate_closes_target_witness:
  "events_since start (snd (runTemplate example_world example_gomplate
      \<lparr>name = ''a.t'', contents = ''hello'', target = OsFile 7\<rparr> start)) =
     [Compiled \<lparr>name = ''a.t'', contents = ''hello'', target = OsFile 7\<rparr> None,
      Executed \<lparr>name = ''a.t'', contents = ''hello'', target = OsFile 7\<rparr> (context' example_gomplate) ''hello'' None,
      Closed (OsFile 7)]
   \<and> events_since start (snd (runTemplate example_world example_gomplate
      \<lparr>name = ''<arg>'', contents = ''hello'', target = os_Stdout\<rparr> start)) =
     [Compiled \<lparr>name = ''<arg>'', contents = ''hello'', target = os_Stdout\<rparr> None,
      Executed \<lparr>name = ''<arg>'', contents = ''hello'', target = os_Stdout\<rparr> (context' example_gomplate) ''hello'' None]"
proof -
  have c1: "toGoTemplate example_world (trace start) \<lparr>name = ''a.t'', contents = ''hello'', target = OsFile 7\<rparr> example_gomplate = Inr ''hello''"
    by (simp add: example_world_def example_toGoTemplate_def)
  have e1: "Execute example_world (trace start @ [Compiled \<lparr>name = ''a.t'', contents = ''hello'', target = OsFile 7\<rparr> None]) ''hello''
      (target \<lparr>name = ''a.t'', contents = ''hello'', target = OsFile 7\<rparr>) (context' example_gomplate) = (''hello'', None)"
    by (simp add: example_world_def example_Execute_def)
  have c2: "toGoTemplate example_world (trace start) \<lparr>name = ''<arg>'', contents = ''hello'', target = os_Stdout\<rparr> example_gomplate = Inr ''hello''"
    by (simp add: example_world_def example_toGoTemplate_def)
  have e2: "Execute example_world (trace start @ [Compiled \<lparr>name = ''<arg>'', contents = ''hello'', target = os_Stdout\<rparr> None]) ''hello''
      (target \<lparr>name = ''<arg>'', contents = ''hello'', target = os_Stdout\<rparr>) (context' example_gomplate) = (''hello'', None)"
    by (simp add: example_world_def example_Execute_def)
  show ?thesis
    using runTemplate_closes_target [of example_world start "\<lparr>name = ''a.t'', contents = ''hello'', target = OsFile 7\<rparr>" example_gomplate]
      runTemplate_closes_target [of example_world start "\<lparr>name = ''<arg>'', contents = ''hello'', target = os_Stdout\<rparr>" example_gomplate]
      c1 e1 c2 e2
    by (simp add: os_Stdout_def)
qed

section \<open>Properties: the dynamic namer\<close>

lemma derived_ctx_in: "derived_ctx g inPath ''in'' = Some (StringValue inPath)"
  by (simp add: derived_ctx_def Let_def)

lemma derived_ctx_ctx: "derived_ctx g inPath ''ctx'' = Some (context' g)"
  by (simp add: derived_ctx_def Let_def)

lemma derived_ctx_other:
  "k \<noteq> ''in'' \<Longrightarrow> k \<noteq> ''ctx'' \<Longrightarrow>
   derived_ctx g inPath k = (case context' g of ContextPtr c \<Rightarrow> c k | _ \<Rightarrow> None)"
  by (simp add: derived_ctx_def copy_entries_def Let_def split: val.splits)

lemma derived_ctx_root_value:
  "(\<forall>c. context' g \<noteq> ContextPtr c) \<Longrightarrow> dom (derived_ctx g inPath) = {''in'', ''ctx''}"
  by (cases "context' g") (auto simp add: derived_ctx_def Let_def split: if_splits)

lemma call_mappingNamer:
  assumes "toGoTemplate E (trace w) (OutputMap_tplate outMap) g = Inr tpl"
    and "Execute E (trace w @ [Compiled (OutputMap_tplate outMap) None]) tpl BytesBuffer
           (ContextPtr (derived_ctx g inPath)) = (out, err)"
  shows "call_namer E (mappingNamer outMap g) inPath w =
     ((case err of
         None \<Rightarrow> Inr (filepath_Clean (strings_TrimSpace out))
       | Some e \<Rightarrow> Inl (Wrapf e (ContextPtr (derived_ctx g inPath)) inPath)),
      w\<lparr>trace := trace w @ [Compiled (OutputMap_tplate outMap) None,
                             Executed (OutputMap_tplate outMap) (ContextPtr (derived_ctx g inPath)) out err]\<rparr>)"
  using assms
  by (simp add: mappingNamer_def OutputMap_tplate_def emit_def Let_def split: option.splits)

text \<open>
  C2. For every input identifier, when the mapping template compiles, the closure of
  \<^verbatim>\<open>mappingNamer\<close> executes it against the derived context: the entry \<open>in\<close> is the
  input identifier, the entry \<open>ctx\<close> is the original context \<^verbatim>\<open>g.context\<close>, every
  other key has the entry it has in \<^verbatim>\<open>g.context\<close> when that is a mapping and none
  otherwise (so that for a single root value only the two reserved keys are present).
  When the execution succeeds the output path is
  \<^verbatim>\<open>filepath.Clean(strings.TrimSpace(out))\<close> of the text written; when it fails the error
  is wrapped with the derived context and the input identifier. The trimmed text is the
  text written without the white space at its two ends: the text written is a run of
  white-space sequences, the trimmed text, and a run of white-space sequences, and the
  trimmed text neither starts nor ends with a white-space sequence. The cleaned path is
  what the library documents for the trimmed text, and it is in clean form.
\<close>

theorem mappingNamer_derived_context:
  assumes "toGoTemplate E (trace w) (OutputMap_tplate outMap) g = Inr tpl"
    and "Execute E (trace w @ [Compiled (OutputMap_tplate outMap) None]) tpl BytesBuffer
           (ContextPtr (derived_ctx g inPath)) = (out, err)"
  shows "events_since w (snd (call_namer E (mappingNamer outMap g) inPath w)) =
       [Compiled (OutputMap_tplate outMap) None,
        Executed (OutputMap_tplate outMap) (ContextPtr (derived_ctx g inPath)) out err]
    \<and> derived_ctx g inPath ''in'' = Some (StringValue inPath)
    \<and> derived_ctx g inPath ''ctx'' = Some (context' g)
    \<and> (\<forall>k. k \<noteq> ''in'' \<and> k \<noteq> ''ctx'' \<longrightarrow>
          derived_ctx g inPath k = (case context' g of ContextPtr c \<Rightarrow> c k | _ \<Rightarrow> None))
    \<and> ((\<forall>c. context' g \<noteq> ContextPtr c) \<longrightarrow> dom (derived_ctx g inPath) = {''in'', ''ctx''})
    \<and> fst (call_namer E (mappingNamer outMap g) inPath w) =
        (case err of
           None \<Rightarrow> Inr (filepath_Clean (strings_TrimSpace out))
         | Some e \<Rightarrow> Inl (Wrapf e (ContextPtr (derived_ctx g inPath)) inPath))
    \<and> (\<exists>ls rs. set ls \<subseteq> set white_space \<and> set rs \<subseteq> set white_space \<and>
          out = concat ls @ strings_TrimSpace out @ concat rs)
    \<and> (\<forall>ws \<in> set white_space.
          take (length ws) (strings_TrimSpace out) \<noteq> ws \<and>
          drop (length (strings_TrimSpace out) - length ws) (strings_TrimSpace out) \<noteq> ws)
    \<and> filepath_Clean (strings_TrimSpace out) = clean_spec (strings_TrimSpace out)
    \<and> cleaned (filepath_Clean (strings_TrimSpace out))"
proof -
  have call: "events_since w (snd (call_namer E (mappingNamer outMap g) inPath w)) =
       [Compiled (OutputMap_tplate outMap) None,
        Executed (OutputMap_tplate outMap) (ContextPtr (derived_ctx g inPath)) out err]
    \<and> derived_ctx g inPath ''in'' = Some (StringValue inPath)
    \<and> derived_ctx g inPath ''ctx'' = Some (context' g)
    \<and> (\<forall>k. k \<noteq> ''in'' \<and> k \<noteq> ''ctx'' \<longrightarrow>
          derived_ctx g inPath k = (case context' g of ContextPtr c \<Rightarrow> c k | _ \<Rightarrow> None))
    \<and> ((\<forall>c. context' g \<noteq> ContextPtr c) \<longrightarrow> dom (derived_ctx g inPath) = {''in'', ''ctx''})
    \<and> fst (call_namer E (mappingNamer outMap g) inPath w) =
        (case err of
           None \<Rightarrow> Inr (filepath_Clean (strings_TrimSpace out))
         | Some e \<Rightarrow> Inl (Wrapf e (ContextPtr (derived_ctx g inPath)) inPath))"
    using call_mappingNamer [OF assms]
    by (simp add: events_since_def derived_ctx_in derived_ctx_ctx derived_ctx_other derived_ctx_root_value)
  have cl: "filepath_Clean (strings_TrimSpace out) = clean_spec (strings_TrimSpace out)"
    unfolding filepath_Clean_def by (rule path_Clean_spec)
  have cf: "cleaned (filepath_Clean (strings_TrimSpace out))"
    unfolding cl by (rule clean_spec_cleaned)
  from call strings_TrimSpace_spec [of out] cl cf show ?thesis by blast
qed

theorem mappingNamer_derived_context_witness:
  "fst (call_namer example_world (mappingNamer (''{{.in}}.out'' @ [CHR 0x0A]) example_gomplate) ''a/./b'' start) =
     Inr ''a/b.out''
   \<and> derived_ctx example_gomplate ''a/./b'' ''in'' = Some (StringValue ''a/./b'')
   \<and> derived_ctx example_gomplate ''a/./b'' ''ctx'' = Some (context' example_gomplate)
   \<and> derived_ctx example_gomplate ''a/./b'' ''X'' = Some (StringValue ''x'')
   \<and> derived_ctx (example_gomplate\<lparr>context' := StringValue ''root''\<rparr>) ''a/./b'' ''X'' = None
   \<and> fst (call_namer example_world
        (mappingNamer ([CHR 0x09, CHR 0x20, CHR 0xC2, CHR 0xA0] @ ''out/./sub/../x.txt'' @
                       [CHR 0xE3, CHR 0x80, CHR 0x80, CHR 0x20, CHR 0x0A]) example_gomplate)
        ''a/./b'' start) = Inr ''out/x.txt''
   \<and> strings_TrimSpace ([CHR 0x09, CHR 0x20, CHR 0xC2, CHR 0xA0] @ ''out/./sub/../x.txt'' @
                       [CHR 0xE3, CHR 0x80, CHR 0x80, CHR 0x20, CHR 0x0A]) = ''out/./sub/../x.txt''
   \<and> clean_spec ''out/./sub/../x.txt'' = ''out/x.txt''
   \<and> cleaned ''out/x.txt''"
proof -
  let ?m = "[CHR 0x09, CHR 0x20, CHR 0xC2, CHR 0xA0] @ ''out/./sub/../x.txt'' @
            [CHR 0xE3, CHR 0x80, CHR 0x80, CHR 0x20, CHR 0x0A]"
  have c: "toGoTemplate example_world (trace start) (OutputMap_tplate (''{{.in}}.out'' @ [CHR 0x0A])) example_gomplate =
      Inr (''{{.in}}.out'' @ [CHR 0x0A])"
    by (simp add: example_world_def example_toGoTemplate_def OutputMap_tplate_def)
  have e: "Execute example_world (trace start @ [Compiled (OutputMap_tplate (''{{.in}}.out'' @ [CHR 0x0A])) None])
      (''{{.in}}.out'' @ [CHR 0x0A]) BytesBuffer (ContextPtr (derived_ctx example_gomplate ''a/./b'')) =
      (''a/./b.out'' @ [CHR 0x0A], None)"
    by (simp add: example_world_def example_Execute_def derived_ctx_def Let_def)
  have t: "filepath_Clean (strings_TrimSpace (''a/./b.out'' @ [CHR 0x0A])) = ''a/b.out''"
    by (simp add: filepath_Clean_def path_Clean_def is_sep_next_def strings_TrimSpace_def
        space_prefix_def space_suffix_def white_space_def)
  have x: "''X'' \<noteq> ''in'' \<and> ''X'' \<noteq> ''ctx''" by simp
  have c2: "toGoTemplate example_world (trace start) (OutputMap_tplate ?m) example_gomplate = Inr ?m"
    by (simp add: example_world_def example_toGoTemplate_def OutputMap_tplate_def)
  have e2: "Execute example_world (trace start @ [Compiled (OutputMap_tplate ?m) None])
      ?m BytesBuffer (ContextPtr (derived_ctx example_gomplate ''a/./b'')) = (?m, None)"
    by (simp add: example_world_def example_Execute_def)
  have t2: "strings_TrimSpace ?m = ''out/./sub/../x.txt''"
    by (simp add: strings_TrimSpace_def space_prefix_def space_suffix_def white_space_def)
  have s2: "filepath_Clean ''out/./sub/../x.txt'' = ''out/x.txt''"
    by (simp add: filepath_Clean_def path_Clean_def is_sep_next_def)
  have first: "fst (call_namer example_world (mappingNamer (''{{.in}}.out'' @ [CHR 0x0A]) example_gomplate) ''a/./b'' start) =
     Inr ''a/b.out''
   \<and> derived_ctx example_gomplate ''a/./b'' ''in'' = Some (StringValue ''a/./b'')
   \<and> derived_ctx example_gomplate ''a/./b'' ''ctx'' = Some (context' example_gomplate)
   \<and> derived_ctx example_gomplate ''a/./b'' ''X'' = Some (StringValue ''x'')
   \<and> derived_ctx (example_gomplate\<lparr>context' := StringValue ''root''\<rparr>) ''a/./b'' ''X'' = None"
    using mappingNamer_derived_context [OF c e] t x
    by (simp add: example_gomplate_def newGomplate_def derived_ctx_def copy_entries_def Let_def)
  note m2 = mappingNamer_derived_context [OF c2 e2]
  have r2: "fst (call_namer example_world (mappingNamer ?m example_gomplate) ''a/./b'' start) =
      Inr (filepath_Clean (strings_TrimSpace ?m))"
    using m2 by simp
  have sp2: "filepath_Clean (strings_TrimSpace ?m) = clean_spec (strings_TrimSpace ?m)"
    using m2 by blast
  have cl2: "cleaned (filepath_Clean (strings_TrimSpace ?m))"
    using m2 by blast
  have second: "fst (call_namer example_world (mappingNamer ?m example_gomplate) ''a/./b'' start) =
      Inr ''out/x.txt''"
    using r2 unfolding t2 s2 .
  have third: "clean_spec ''out/./sub/../x.txt'' = ''out/x.txt''"
    using sp2 unfolding t2 s2 by (rule sym)
  have fourth: "cleaned ''out/x.txt''"
    using cl2 unfolding t2 s2 .
  from first second t2 third fourth show ?thesis by (intro conjI) blast+
qed

lemma compilations_append: "compilations (xs @ ys) = compilations xs @ compilations ys"
  by (induction xs rule: compilations.induct) auto

lemma call_mappingNamer_compilations:
  "compilations (trace (snd (call_namer E (mappingNamer outMap g) inPath w))) =
   compilations (trace w) @ [OutputMap_tplate outMap]"
  by (simp add: mappingNamer_def OutputMap_tplate_def emit_def Let_def compilations_append
      split: sum.splits option.splits prod.splits)

lemma name_inputs_compilations:
  "name_inputs E (mappingNamer outMap g) ps w = (Inr outs, w') \<Longrightarrow>
   compilations (trace w') = compilations (trace w) @ replicate (length ps) (OutputMap_tplate outMap)"
proof (induction ps arbitrary: w outs)
  case Nil
  then show ?case by simp
next
  case (Cons p ps)
  obtain r w1 where c: "call_namer E (mappingNamer outMap g) p w = (r, w1)"
    by (cases "call_namer E (mappingNamer outMap g) p w")
  from Cons.prems c obtain out where r: "r = Inr out"
    by (cases r) auto
  from Cons.prems c r obtain outs' where rest: "name_inputs E (mappingNamer outMap g) ps w1 = (Inr outs', w')"
    by (auto split: prod.splits sum.splits)
  have "compilations (trace w1) = compilations (trace w) @ [OutputMap_tplate outMap]"
    using call_mappingNamer_compilations [of E outMap g p w] c by simp
  with Cons.IH [OF rest] show ?case
    by (simp add: replicate_append_same)
qed

text \<open>
  C3, as the code has it. \<^verbatim>\<open>mappingNamer\<close> compiles nothing when the strategy is
  built: it captures the mapping-template string. Each call of the closure compiles the
  descriptor \<open><OutputMap>\<close> with that same string once, so naming \<open>n\<close> inputs
  compiles it \<open>n\<close> times.
\<close>

theorem mappingNamer_compiles_each_call:
  "compilations (events_since w (snd (call_namer E (mappingNamer outMap g) inPath w))) = [OutputMap_tplate outMap]
   \<and> (\<forall>outs w'. name_inputs E (mappingNamer outMap g) ps w = (Inr outs, w') \<longrightarrow>
        compilations (trace w') = compilations (trace w) @ replicate (length ps) (OutputMap_tplate outMap))"
proof -
  have "trace (snd (call_namer E (mappingNamer outMap g) inPath w)) =
      trace w @ events_since w (snd (call_namer E (mappingNamer outMap g) inPath w))"
    by (simp add: events_since_def mappingNamer_def emit_def Let_def
        split: sum.splits option.splits prod.splits)
  then have "compilations (trace w) @ compilations (events_since w (snd (call_namer E (mappingNamer outMap g) inPath w))) =
      compilations (trace w) @ [OutputMap_tplate outMap]"
    using call_mappingNamer_compilations [of E outMap g inPath w]
    by (metis compilations_append)
  then show ?thesis
    using name_inputs_compilations by blast
qed

theorem mappingNamer_compiles_each_call_witness:
  "name_inputs example_world (mappingNamer ''{{.in}}.out'' example_gomplate) [''a'', ''b/../c''] start =
     (Inr [''a.out'', ''c.out''],
      snd (name_inputs example_world (mappingNamer ''{{.in}}.out'' example_gomplate) [''a'', ''b/../c''] start))
   \<and> compilations (trace (snd (name_inputs example_world (mappingNamer ''{{.in}}.out'' example_gomplate)
          [''a'', ''b/../c''] start))) =
       [OutputMap_tplate ''{{.in}}.out'', OutputMap_tplate ''{{.in}}.out'']"
proof -
  have run: "fst (name_inputs example_world (mappingNamer ''{{.in}}.out'' example_gomplate) [''a'', ''b/../c''] start) =
      Inr [''a.out'', ''c.out'']"
    by (simp add: mappingNamer_def example_world_def example_toGoTemplate_def example_Execute_def
        emit_def start_def example_gomplate_def newGomplate_def derived_ctx_def Let_def
        filepath_Clean_def path_Clean_def is_sep_next_def strings_TrimSpace_def
        space_prefix_def space_suffix_def white_space_def)
  then have eq: "name_inputs example_world (mappingNamer ''{{.in}}.out'' example_gomplate) [''a'', ''b/../c''] start =
     (Inr [''a.out'', ''c.out''],
      snd (name_inputs example_world (mappingNamer ''{{.in}}.out'' example_gomplate) [''a'', ''b/../c''] start))"
    by (metis prod.collapse)
  have "compilations (trace start) = []" by (simp add: start_def)
  then show ?thesis
    using eq mappingNamer_compiles_each_call [of start "example_world" "''{{.in}}.out''" example_gomplate
        "''a''" "[''a'', ''b/../c'']"]
    by (simp add: numeral_2_eq_2)
qed

text \<open>
  The mapping template is not compiled once and reused: naming the two inputs \<open>a\<close> and
  \<open>b\<close> in the example world compiles it twice.
\<close>

theorem mappingNamer_compiled_once_counterexample:
  "length (compilations (trace (snd (name_inputs example_world
      (mappingNamer ''{{.in}}.out'' example_gomplate) [''a'', ''b''] start)))) = 2"
  by (simp add: mappingNamer_def example_world_def example_toGoTemplate_def example_Execute_def
       emit_def start_def example_gomplate_def newGomplate_def derived_ctx_def Let_def)

section \<open>Properties: joining a directory and an entry name\<close>

text \<open>
  \<^verbatim>\<open>path.Clean\<close> works through a path one element at a time: cleaning a prefix
  followed by a separator and an entry name goes through the prefix as cleaning the
  prefix alone does, and then appends the name. So the join of a prefix and an entry
  name is a text that depends on the prefix only, followed by the name; different entry
  names give different joined paths; and when the prefix is already in clean form (and
  is neither \<open>.\<close> nor \<open>/\<close>) the join is the prefix, a separator and the name.
\<close>

lemma is_sep_next_append: "is_sep_next (cs @ CHR ''/'' # n) = is_sep_next cs"
  by (cases cs) (simp_all add: is_sep_next_def)

lemma clean_step_entry:
  assumes "entry_name n"
  shows "clean_step rooted n out dd =
     ([], (if (rooted \<and> length out \<noteq> 1) \<or> (\<not> rooted \<and> length out \<noteq> 0) then out @ ''/'' else out) @ n, dd)"
proof -
  from assms obtain c cs where n: "n = c # cs" by (cases n) (auto simp: entry_name_def)
  have noslash: "\<forall>x \<in> set (c # cs). x \<noteq> CHR ''/''" using assms n by (auto simp: entry_name_def)
  have c: "c \<noteq> CHR ''/''" using noslash by simp
  have dot: "\<not> (c = CHR ''.'' \<and> is_sep_next cs)"
    using assms n noslash by (cases cs) (auto simp: entry_name_def is_sep_next_def)
  have dotdot: "\<not> (c = CHR ''.'' \<and> cs \<noteq> [] \<and> hd cs = CHR ''.'' \<and> is_sep_next (tl cs))"
  proof (cases cs)
    case Nil
    then show ?thesis by simp
  next
    case (Cons d ds)
    then show ?thesis using assms n noslash by (cases ds) (auto simp: entry_name_def is_sep_next_def)
  qed
  have t: "takeWhile (\<lambda>x. x \<noteq> CHR ''/'') (c # cs) = c # cs"
    using noslash by (simp only: takeWhile_eq_all_conv) 
  have d: "dropWhile (\<lambda>x. x \<noteq> CHR ''/'') (c # cs) = []"
    using noslash by (simp only: dropWhile_eq_Nil_conv)
  show ?thesis
    unfolding n clean_step.simps using c dot dotdot by (simp only: if_False t d)
qed

lemma clean_loop_entry:
  assumes "entry_name n"
  shows "clean_loop rooted n out dd =
     (if (rooted \<and> length out \<noteq> 1) \<or> (\<not> rooted \<and> length out \<noteq> 0) then out @ ''/'' else out) @ n"
proof -
  have n: "n \<noteq> []" using assms by (simp add: entry_name_def)
  show ?thesis
    using clean_loop_step [OF n clean_step_entry [OF assms, of rooted out dd]]
    by (simp only: clean_loop_Nil)
qed

lemma clean_step_both:
  "\<exists>p' out1 dd1. length p' < length (c # cs) \<and>
     clean_step rooted (c # cs) out dd = (p', out1, dd1) \<and>
     (\<forall>n. clean_step rooted ((c # cs) @ CHR ''/'' # n) out dd = (p' @ CHR ''/'' # n, out1, dd1))"
proof -
  consider (sep) "c = CHR ''/''"
    | (dot) "c \<noteq> CHR ''/''" "c = CHR ''.'' \<and> is_sep_next cs"
    | (dotdot) "c \<noteq> CHR ''/''" "\<not> (c = CHR ''.'' \<and> is_sep_next cs)"
        "c = CHR ''.'' \<and> cs \<noteq> [] \<and> hd cs = CHR ''.'' \<and> is_sep_next (tl cs)"
    | (elem) "c \<noteq> CHR ''/''" "\<not> (c = CHR ''.'' \<and> is_sep_next cs)"
        "\<not> (c = CHR ''.'' \<and> cs \<noteq> [] \<and> hd cs = CHR ''.'' \<and> is_sep_next (tl cs))"
    by blast
  then show ?thesis
  proof cases
    case sep
    have "clean_step rooted (c # cs) out dd = (cs, out, dd)"
      "\<forall>n. clean_step rooted ((c # cs) @ CHR ''/'' # n) out dd = (cs @ CHR ''/'' # n, out, dd)"
      using sep by simp_all
    then show ?thesis by (intro exI [of _ cs] exI [of _ out] exI [of _ dd]) simp
  next
    case dot
    have "clean_step rooted (c # cs) out dd = (cs, out, dd)"
      "\<forall>n. clean_step rooted ((c # cs) @ CHR ''/'' # n) out dd = (cs @ CHR ''/'' # n, out, dd)"
      using dot by (simp_all add: is_sep_next_append)
    then show ?thesis by (intro exI [of _ cs] exI [of _ out] exI [of _ dd]) simp
  next
    case dotdot
    then obtain d ds where cs: "cs = d # ds" by (cases cs) auto
    let ?out1 = "if length out > dd then take (backtrack out dd (length out - 1)) out
         else if \<not> rooted then (if length out > 0 then out @ ''/'' else out) @ ''..''
         else out"
    let ?dd1 = "if length out > dd then dd
         else if \<not> rooted then length ((if length out > 0 then out @ ''/'' else out) @ ''..'')
         else dd"
    have c1: "(c = CHR ''/'') = False" using dotdot(1) by simp
    have s2: "(c = CHR ''.'' \<and> is_sep_next cs) = False" using dotdot(2) by simp
    have s3: "(c = CHR ''.'' \<and> cs \<noteq> [] \<and> hd cs = CHR ''.'' \<and> is_sep_next (tl cs)) = True"
      using dotdot(3) by simp
    have c2: "\<And>n. (c = CHR ''.'' \<and> is_sep_next (cs @ CHR ''/'' # n)) = False"
      using dotdot(2) by (simp only: is_sep_next_append)
    have c3: "\<And>n. (c = CHR ''.'' \<and> cs @ CHR ''/'' # n \<noteq> [] \<and> hd (cs @ CHR ''/'' # n) = CHR ''.'' \<and>
        is_sep_next (tl cs @ CHR ''/'' # n)) = True"
    proof -
      fix n
      have "hd (cs @ CHR ''/'' # n) = hd cs" "cs @ CHR ''/'' # n \<noteq> []"
        by (simp_all add: cs)
      then show "?thesis n" using dotdot(3) by (simp only: is_sep_next_append) simp
    qed
    have tl: "\<And>n. tl (cs @ CHR ''/'' # n) = tl cs @ CHR ''/'' # n" by (simp add: cs)
    have alone: "clean_step rooted (c # cs) out dd = (tl cs, ?out1, ?dd1)"
    proof -
      have "clean_step rooted (c # cs) out dd =
         (if length out > dd
            then (tl cs, take (backtrack out dd (length out - 1)) out, dd)
            else if \<not> rooted
            then (tl cs, (if length out > 0 then out @ ''/'' else out) @ ''..'',
                  length ((if length out > 0 then out @ ''/'' else out) @ ''..''))
            else (tl cs, out, dd))"
        unfolding clean_step.simps by (simp only: c1 s2 s3 if_True if_False)
      then show ?thesis
        by (cases "length out > dd"; cases rooted)
           (simp_all only: if_True if_False not_True_eq_False not_False_eq_True)
    qed
    have appended: "\<forall>n. clean_step rooted ((c # cs) @ CHR ''/'' # n) out dd = (tl cs @ CHR ''/'' # n, ?out1, ?dd1)"
    proof
      fix n
      have "clean_step rooted (c # (cs @ CHR ''/'' # n)) out dd =
         (if length out > dd
            then (tl cs @ CHR ''/'' # n, take (backtrack out dd (length out - 1)) out, dd)
            else if \<not> rooted
            then (tl cs @ CHR ''/'' # n, (if length out > 0 then out @ ''/'' else out) @ ''..'',
                  length ((if length out > 0 then out @ ''/'' else out) @ ''..''))
            else (tl cs @ CHR ''/'' # n, out, dd))"
        unfolding clean_step.simps by (simp only: c1 c2 c3 tl if_True if_False)
      then show "clean_step rooted ((c # cs) @ CHR ''/'' # n) out dd = (tl cs @ CHR ''/'' # n, ?out1, ?dd1)"
        by (cases "length out > dd"; cases rooted)
           (simp_all only: append_Cons if_True if_False not_True_eq_False not_False_eq_True)
    qed
    have "length (tl cs) < length (c # cs)" by (simp add: cs)
    with alone appended show ?thesis by blast
  next
    case elem
    let ?out1 = "(if (rooted \<and> length out \<noteq> 1) \<or> (\<not> rooted \<and> length out \<noteq> 0) then out @ ''/'' else out)
           @ takeWhile (\<lambda>x. x \<noteq> CHR ''/'') (c # cs)"
    have c1: "(c = CHR ''/'') = False" using elem(1) by simp
    have s2: "(c = CHR ''.'' \<and> is_sep_next cs) = False" using elem(2) by simp
    have s3: "(c = CHR ''.'' \<and> cs \<noteq> [] \<and> hd cs = CHR ''.'' \<and> is_sep_next (tl cs)) = False"
      using elem(3) by simp
    have dots: "\<And>n. (c = CHR ''.'' \<and> cs @ CHR ''/'' # n \<noteq> [] \<and> hd (cs @ CHR ''/'' # n) = CHR ''.'' \<and>
        is_sep_next (tl (cs @ CHR ''/'' # n))) = False"
    proof (cases cs)
      case Nil
      then show "\<And>n. ?thesis n" by simp
    next
      case (Cons d ds)
      then show "\<And>n. ?thesis n" using elem(3) by (simp add: is_sep_next_append)
    qed
    have c2: "\<And>n. (c = CHR ''.'' \<and> is_sep_next (cs @ CHR ''/'' # n)) = False"
      using elem(2) by (simp only: is_sep_next_append)
    have t: "\<And>n. takeWhile (\<lambda>x. x \<noteq> CHR ''/'') (c # cs @ CHR ''/'' # n) = takeWhile (\<lambda>x. x \<noteq> CHR ''/'') (c # cs)"
      using takeWhile_tail [of "\<lambda>x. x \<noteq> CHR ''/''" "CHR ''/''" "c # cs"] by simp
    have d: "\<And>n. dropWhile (\<lambda>x. x \<noteq> CHR ''/'') (c # cs @ CHR ''/'' # n) =
        dropWhile (\<lambda>x. x \<noteq> CHR ''/'') (c # cs) @ CHR ''/'' # n"
      using dropWhile_append3 [of "\<lambda>x. x \<noteq> CHR ''/''" "CHR ''/''" "c # cs"] by simp
    have alone: "clean_step rooted (c # cs) out dd = (dropWhile (\<lambda>x. x \<noteq> CHR ''/'') (c # cs), ?out1, dd)"
      unfolding clean_step.simps by (simp only: c1 s2 s3 if_False)
    have appended: "\<forall>n. clean_step rooted ((c # cs) @ CHR ''/'' # n) out dd =
        (dropWhile (\<lambda>x. x \<noteq> CHR ''/'') (c # cs) @ CHR ''/'' # n, ?out1, dd)"
    proof
      fix n
      have "clean_step rooted (c # (cs @ CHR ''/'' # n)) out dd =
        (dropWhile (\<lambda>x. x \<noteq> CHR ''/'') (c # (cs @ CHR ''/'' # n)),
         (if (rooted \<and> length out \<noteq> 1) \<or> (\<not> rooted \<and> length out \<noteq> 0) then out @ ''/'' else out)
           @ takeWhile (\<lambda>x. x \<noteq> CHR ''/'') (c # (cs @ CHR ''/'' # n)), dd)"
        unfolding clean_step.simps by (simp only: c1 c2 dots if_False)
      then show "clean_step rooted ((c # cs) @ CHR ''/'' # n) out dd =
        (dropWhile (\<lambda>x. x \<noteq> CHR ''/'') (c # cs) @ CHR ''/'' # n, ?out1, dd)"
        by (simp only: append_Cons t d)
    qed
    have "length (dropWhile (\<lambda>x. x \<noteq> CHR ''/'') (c # cs)) < length (c # cs)"
      using elem(1) by (rule dropWhile_sep_shorter)
    with alone appended show ?thesis by blast
  qed
qed

lemma clean_loop_then_entry:
  "\<exists>dd'. \<forall>n. clean_loop rooted (p @ CHR ''/'' # n) out dd = clean_loop rooted n (clean_loop rooted p out dd) dd'"
proof (induction p arbitrary: out dd rule: length_induct)
  case (1 p)
  show ?case
  proof (cases p)
    case Nil
    have "\<forall>n. clean_loop rooted (p @ CHR ''/'' # n) out dd = clean_loop rooted n (clean_loop rooted p out dd) dd"
      unfolding Nil
      using clean_loop_step [of "[] @ CHR ''/'' # _" rooted out dd _ out dd]
      by (simp add: clean_loop_Nil del: clean_loop.simps)
    then show ?thesis by blast
  next
    case (Cons c cs)
    obtain p' out1 dd1 where shorter: "length p' < length p"
      and alone: "clean_step rooted p out dd = (p', out1, dd1)"
      and step: "\<forall>n. clean_step rooted (p @ CHR ''/'' # n) out dd = (p' @ CHR ''/'' # n, out1, dd1)"
      using clean_step_both [of c cs rooted out dd] unfolding Cons by blast
    from 1 shorter obtain dd' where
      rest: "\<forall>n. clean_loop rooted (p' @ CHR ''/'' # n) out1 dd1 = clean_loop rooted n (clean_loop rooted p' out1 dd1) dd'"
      by blast
    have pne: "p \<noteq> []" using Cons by simp
    have one: "clean_loop rooted p out dd = clean_loop rooted p' out1 dd1"
      using pne alone by (rule clean_loop_step)
    have "\<forall>n. clean_loop rooted (p @ CHR ''/'' # n) out dd = clean_loop rooted n (clean_loop rooted p out dd) dd'"
    proof
      fix n
      have ne: "p @ CHR ''/'' # n \<noteq> []" by simp
      have st: "clean_step rooted (p @ CHR ''/'' # n) out dd = (p' @ CHR ''/'' # n, out1, dd1)"
        using step by blast
      have "clean_loop rooted (p @ CHR ''/'' # n) out dd = clean_loop rooted (p' @ CHR ''/'' # n) out1 dd1"
        using ne st by (rule clean_loop_step)
      then show "clean_loop rooted (p @ CHR ''/'' # n) out dd = clean_loop rooted n (clean_loop rooted p out dd) dd'"
        using rest one by simp
    qed
    then show ?thesis by blast
  qed
qed

lemma path_Join_entry_eq:
  assumes "entry_name n" and "prefix \<noteq> []"
  shows "path_Join [prefix, n] =
     (let rooted = (hd prefix = CHR ''/'');
          buf = (if rooted then clean_loop True (tl prefix) ''/'' 1 else clean_loop False prefix [] 0)
      in (if (rooted \<and> length buf \<noteq> 1) \<or> (\<not> rooted \<and> length buf \<noteq> 0) then buf @ ''/'' else buf) @ n)"
proof -
  have nn: "n \<noteq> []" using assms(1) by (simp add: entry_name_def)
  have j: "join_elems [prefix, n] [] = prefix @ CHR ''/'' # n"
    using assms(2) by simp
  have pj: "path_Join [prefix, n] = path_Clean (prefix @ CHR ''/'' # n)"
    using j nn by (simp add: path_Join_def del: clean_loop.simps)
  show ?thesis
  proof (cases "hd prefix = CHR ''/''")
    case True
    obtain dd' where "\<forall>m. clean_loop True (tl prefix @ CHR ''/'' # m) ''/'' 1 =
        clean_loop True m (clean_loop True (tl prefix) ''/'' 1) dd'"
      using clean_loop_then_entry by blast
    then have "clean_loop True (tl prefix @ CHR ''/'' # n) ''/'' 1 =
        (if length (clean_loop True (tl prefix) ''/'' 1) \<noteq> 1
         then clean_loop True (tl prefix) ''/'' 1 @ ''/'' else clean_loop True (tl prefix) ''/'' 1) @ n"
      using clean_loop_entry [OF assms(1), of True "clean_loop True (tl prefix) ''/'' 1" dd']
      by (simp del: clean_loop.simps)
    then show ?thesis
      using True nn assms(2) pj
      by (simp add: path_Clean_def Let_def del: clean_loop.simps)
  next
    case False
    obtain dd' where "\<forall>m. clean_loop False (prefix @ CHR ''/'' # m) [] 0 =
        clean_loop False m (clean_loop False prefix [] 0) dd'"
      using clean_loop_then_entry by blast
    then have "clean_loop False (prefix @ CHR ''/'' # n) [] 0 =
        (if length (clean_loop False prefix [] 0) \<noteq> 0
         then clean_loop False prefix [] 0 @ ''/'' else clean_loop False prefix [] 0) @ n"
      using clean_loop_entry [OF assms(1), of False "clean_loop False prefix [] 0" dd']
      by (simp del: clean_loop.simps)
    then show ?thesis
      using False nn assms(2) pj
      by (simp add: path_Clean_def Let_def del: clean_loop.simps)
  qed
qed

lemma path_Join_entry:
  "\<exists>D. \<forall>n. entry_name n \<longrightarrow> path_Join [prefix, n] = D @ n"
proof (cases "prefix = []")
  case True
  have "\<forall>n. entry_name n \<longrightarrow> path_Join [prefix, n] = [] @ n"
  proof (intro allI impI)
    fix n assume e: "entry_name n"
    then have "n \<noteq> []" "hd n \<noteq> CHR ''/''" by (cases n; auto simp: entry_name_def)+
    then show "path_Join [prefix, n] = [] @ n"
      using True clean_loop_entry [OF e, of False "[]" 0]
      by (simp add: path_Join_def path_Clean_def del: clean_loop.simps)
  qed
  then show ?thesis by blast
next
  case False
  define D where "D = (let rooted = (hd prefix = CHR ''/'');
          buf = (if rooted then clean_loop True (tl prefix) ''/'' 1 else clean_loop False prefix [] 0)
      in (if (rooted \<and> length buf \<noteq> 1) \<or> (\<not> rooted \<and> length buf \<noteq> 0) then buf @ ''/'' else buf))"
  have "\<forall>n. entry_name n \<longrightarrow> path_Join [prefix, n] = D @ n"
    using path_Join_entry_eq [OF _ False] by (simp add: D_def Let_def del: clean_loop.simps)
  then show ?thesis by blast
qed

lemma path_Join_clean_prefix:
  assumes "entry_name n" and "path_Clean prefix = prefix" and "prefix \<noteq> ''.''" and "prefix \<noteq> ''/''"
  shows "path_Join [prefix, n] = prefix @ ''/'' @ n"
proof -
  have ne: "prefix \<noteq> []" using assms(2) by (auto simp add: path_Clean_def)
  define rooted where "rooted = (hd prefix = CHR ''/'')"
  define buf where "buf = (if rooted then clean_loop True (tl prefix) ''/'' 1 else clean_loop False prefix [] 0)"
  have "path_Clean prefix = (if buf = [] then ''.'' else buf)"
    using ne by (simp add: path_Clean_def Let_def buf_def rooted_def del: clean_loop.simps)
  then have buf: "buf = prefix" "buf \<noteq> []"
    using assms(2,3) ne by (auto split: if_splits)
  have "rooted \<Longrightarrow> length buf \<noteq> 1"
  proof
    assume r: rooted and l: "length buf = 1"
    then obtain c where "prefix = [c]" using buf by (cases prefix) auto
    then show False using r assms(4) by (simp add: rooted_def)
  qed
  then have slash: "(rooted \<and> length buf \<noteq> 1) \<or> (\<not> rooted \<and> length buf \<noteq> 0)"
    using buf by auto
  have "path_Join [prefix, n] =
      (if (rooted \<and> length buf \<noteq> 1) \<or> (\<not> rooted \<and> length buf \<noteq> 0) then buf @ ''/'' else buf) @ n"
    using path_Join_entry_eq [OF assms(1) ne] by (simp add: Let_def buf_def rooted_def del: clean_loop.simps)
  then show ?thesis using slash buf by simp
qed

lemma path_Join_entry_inj:
  "entry_name n \<Longrightarrow> entry_name n' \<Longrightarrow> path_Join [prefix, n] = path_Join [prefix, n'] \<Longrightarrow> n = n'"
  using path_Join_entry [of prefix] by (metis same_append_eq)

section \<open>Properties: alias resolution\<close>

lemma add_entries_eq:
  "add_entries prefix pth files ta = ta ++ map_of (rev (entry_aliases prefix pth files))"
proof (induction files arbitrary: ta)
  case Nil
  then show ?case by (simp add: entry_aliases_def)
next
  case (Cons f files)
  show ?case
  proof (cases "IsDir f")
    case True
    then show ?thesis using Cons.IH [of ta] by (simp add: entry_aliases_def)
  next
    case False
    have "add_entries prefix pth (f # files) ta =
        add_entries prefix pth files (ta(path_Join [prefix, Name f] \<mapsto> path_Join [pth, Name f]))"
      using False by simp
    also have "\<dots> =
        ta(path_Join [prefix, Name f] \<mapsto> path_Join [pth, Name f]) ++ map_of (rev (entry_aliases prefix pth files))"
      by (rule Cons.IH)
    also have "\<dots> = ta ++ map_of (rev (entry_aliases prefix pth (f # files)))"
      using False by (simp add: entry_aliases_def map_add_upd_left)
    finally show ?thesis .
  qed
qed

text \<open>What one argument adds does not depend on the map it is added to.\<close>

lemma parseTemplateArg_adds:
  "parseTemplateArg E a ta =
     (case parseTemplateArg E a Map.empty of Inl e \<Rightarrow> Inl e | Inr d \<Rightarrow> Inr (ta ++ d))"
  by (auto simp add: parseTemplateArg_def add_entries_eq Let_def split: prod.splits sum.splits)

lemma parse_loop_error:
  "parseTemplateArg E a Map.empty = Inl e \<Longrightarrow>
   \<forall>b \<in> set pre. \<exists>d. parseTemplateArg E b Map.empty = Inr d \<Longrightarrow>
   parse_loop E (pre @ a # post) ta = Inl e"
proof (induction pre arbitrary: ta)
  case Nil
  then show ?case using parseTemplateArg_adds [of E a ta] by simp
next
  case (Cons b pre)
  then obtain d where "parseTemplateArg E b Map.empty = Inr d" by auto
  then have "parseTemplateArg E b ta = Inr (ta ++ d)"
    using parseTemplateArg_adds [of E b ta] by simp
  then show ?case using Cons by simp
qed

lemma parse_loop_success:
  "\<forall>b \<in> set args. \<exists>d. parseTemplateArg E b Map.empty = Inr d \<Longrightarrow>
   \<exists>m. parse_loop E args ta = Inr m"
proof (induction args arbitrary: ta)
  case Nil
  then show ?case by simp
next
  case (Cons b args)
  then obtain d where "parseTemplateArg E b Map.empty = Inr d" by auto
  then have "parseTemplateArg E b ta = Inr (ta ++ d)"
    using parseTemplateArg_adds [of E b ta] by simp
  then show ?case using Cons by simp
qed

lemma parse_loop_keeps:
  "parse_loop E args ta = Inr m \<Longrightarrow>
   \<forall>b \<in> set args. \<forall>d. parseTemplateArg E b Map.empty = Inr d \<longrightarrow> d k = None \<Longrightarrow>
   m k = ta k"
proof (induction args arbitrary: ta)
  case Nil
  then show ?case by simp
next
  case (Cons b args)
  from Cons.prems(1) obtain ta' where b: "parseTemplateArg E b ta = Inr ta'"
    and rest: "parse_loop E args ta' = Inr m"
    by (auto split: sum.splits)
  from b obtain d where d: "parseTemplateArg E b Map.empty = Inr d" and ta': "ta' = ta ++ d"
    using parseTemplateArg_adds [of E b ta] by (auto split: sum.splits)
  from Cons.prems(2) d have "d k = None" by auto
  then have "ta' k = ta k" using ta' by (simp add: map_add_def)
  moreover have "m k = ta' k" using Cons.IH [OF rest] Cons.prems(2) by auto
  ultimately show ?case by simp
qed

lemma parse_loop_last_wins:
  assumes "parse_loop E (pre @ a # post) ta = Inr m"
    and "parseTemplateArg E a Map.empty = Inr d" and "d k = Some v"
    and "\<forall>b \<in> set post. \<forall>d'. parseTemplateArg E b Map.empty = Inr d' \<longrightarrow> d' k = None"
  shows "m k = Some v"
  using assms
proof (induction pre arbitrary: ta)
  case Nil
  from Nil(1) obtain ta' where a: "parseTemplateArg E a ta = Inr ta'"
    and rest: "parse_loop E post ta' = Inr m"
    by (auto split: sum.splits)
  from a Nil(2) have "ta' = ta ++ d"
    using parseTemplateArg_adds [of E a ta] by simp
  then have "ta' k = Some v" using Nil(3) by (simp add: map_add_def)
  then show ?case using parse_loop_keeps [OF rest Nil(4)] by simp
next
  case (Cons b pre)
  from Cons.prems(1) obtain ta' where "parse_loop E (pre @ a # post) ta' = Inr m"
    by (auto split: sum.splits)
  then show ?case using Cons.IH Cons.prems by blast
qed

lemma entry_keys_distinct:
  assumes "distinct (map Name files)" and "\<forall>f \<in> set files. entry_name (Name f)"
  shows "distinct (map fst (entry_aliases prefix pth files))"
proof -
  have d: "distinct (map Name (filter (\<lambda>f. \<not> IsDir f) files))"
    using assms(1) by (rule distinct_map_filter)
  have i: "inj_on (\<lambda>n. path_Join [prefix, n]) (set (map Name (filter (\<lambda>f. \<not> IsDir f) files)))"
    using assms(2) by (auto intro!: inj_onI dest: path_Join_entry_inj)
  have "distinct (map (\<lambda>n. path_Join [prefix, n]) (map Name (filter (\<lambda>f. \<not> IsDir f) files)))"
    using distinct_map [of "\<lambda>n. path_Join [prefix, n]" "map Name (filter (\<lambda>f. \<not> IsDir f) files)"] d i
    by blast
  then show ?thesis by (simp add: entry_aliases_def comp_def)
qed

lemma parseTemplateArg_dir:
  assumes "split_arg templateArg = (alias, pth)"
    and "fs_Stat E pth = Inr fi" and "IsDir fi"
    and "afero_ReadDir E pth = Inr files"
  shows "parseTemplateArg E templateArg ta =
     Inr (ta ++ map_of (rev (entry_aliases (if alias \<noteq> [] then alias else pth) pth files)))"
  using assms by (simp add: parseTemplateArg_def add_entries_eq)

text \<open>
  The join of a directory and an entry name, in the documented terms: the entry name
  alone when the directory is the empty text, and otherwise what \<^verbatim>\<open>Clean\<close> is
  documented to return for the directory, a separator and the name.
\<close>

lemma path_Join_entry_spec:
  assumes "entry_name n"
  shows "path_Join [d, n] = (if d = [] then n else clean_spec (d @ ''/'' @ n))"
proof (cases "d = []")
  case True
  have "n \<noteq> []" "hd n \<noteq> CHR ''/''" using assms by (cases n; auto simp: entry_name_def)+
  then have "path_Join [d, n] = n"
    using True clean_loop_entry [OF assms, of False "[]" 0]
    by (simp add: path_Join_def path_Clean_def del: clean_loop.simps)
  then show ?thesis using True by simp
next
  case False
  have nn: "n \<noteq> []" using assms by (simp add: entry_name_def)
  have j: "join_elems [d, n] [] = d @ ''/'' @ n" using False by simp
  have "path_Join [d, n] = path_Clean (d @ ''/'' @ n)"
    unfolding path_Join_def j using nn by simp
  then show ?thesis using False by (simp only: path_Clean_spec if_False)
qed

lemma path_Join_entry_cleaned:
  assumes "entry_name n"
  shows "cleaned (path_Join [d, n])"
proof -
  have "concat [d, n] \<noteq> []" using assms by (simp add: entry_name_def)
  then have "path_Join [d, n] = clean_spec (join_elems [d, n] [])"
    unfolding path_Join_def path_Clean_spec by (simp only: if_False)
  then show ?thesis by (simp only: clean_spec_cleaned)
qed

text \<open>
  C4, as the code has it. For an argument whose path is a directory that can be listed,
  \<^verbatim>\<open>parseTemplateArg\<close> succeeds and registers the directory's immediate entries that are
  not directories and nothing else: every such entry \<open>f\<close> is bound under the key
  \<^verbatim>\<open>path.Join(prefix, f.Name())\<close> to \<^verbatim>\<open>path.Join(pth, f.Name())\<close>, where the prefix is
  the alias when the argument gives one and the directory path otherwise; every other
  key, the keys of the sub-directories among them, keeps the binding it had or stays
  unbound; and the keys of different entries differ, so each entry appears once. For a
  prefix that is not empty the key is \<^verbatim>\<open>path.Clean\<close> of the text \<open>prefix/name\<close>, which
  is what the library documents for that text, and is that text itself when the prefix
  is in clean form and is neither \<open>.\<close> nor \<open>/\<close>; for the empty prefix the key is the
  name alone. The same holds of the source path, with the directory path in the place of
  the prefix. Keys and source paths are in clean form. (The listing of a directory has
  the names of its entries, each once.)
\<close>

theorem parseTemplateArg_directory:
  assumes "split_arg templateArg = (alias, pth)"
    and "fs_Stat E pth = Inr fi" and "IsDir fi"
    and "afero_ReadDir E pth = Inr files"
    and "prefix = (if alias \<noteq> [] then alias else pth)"
    and "distinct (map Name files)" and "\<forall>f \<in> set files. entry_name (Name f)"
  shows "\<exists>ta'. parseTemplateArg E templateArg ta = Inr ta'
     \<and> (\<forall>f \<in> set files. \<not> IsDir f \<longrightarrow> ta' (path_Join [prefix, Name f]) = Some (path_Join [pth, Name f]))
     \<and> (\<forall>k. (\<forall>f \<in> set files. IsDir f \<or> k \<noteq> path_Join [prefix, Name f]) \<longrightarrow> ta' k = ta k)
     \<and> distinct (map (\<lambda>f. path_Join [prefix, Name f]) (filter (\<lambda>f. \<not> IsDir f) files))
     \<and> (path_Clean prefix = prefix \<and> prefix \<noteq> ''.'' \<and> prefix \<noteq> ''/'' \<longrightarrow>
          (\<forall>f \<in> set files. path_Join [prefix, Name f] = prefix @ ''/'' @ Name f))
     \<and> (\<forall>f \<in> set files.
          path_Join [prefix, Name f] = (if prefix = [] then Name f else path_Clean (prefix @ ''/'' @ Name f)) \<and>
          path_Join [pth, Name f] = (if pth = [] then Name f else path_Clean (pth @ ''/'' @ Name f)) \<and>
          path_Clean (prefix @ ''/'' @ Name f) = clean_spec (prefix @ ''/'' @ Name f) \<and>
          path_Clean (pth @ ''/'' @ Name f) = clean_spec (pth @ ''/'' @ Name f) \<and>
          cleaned (path_Join [prefix, Name f]) \<and> cleaned (path_Join [pth, Name f]))"
proof -
  let ?al = "entry_aliases prefix pth files"
  let ?ta' = "ta ++ map_of (rev ?al)"
  have eq: "parseTemplateArg E templateArg ta = Inr ?ta'"
    using parseTemplateArg_dir [OF assms(1-4)] assms(5) by simp
  have dist: "distinct (map fst ?al)" using assms(6,7) by (rule entry_keys_distinct)
  then have drev: "distinct (map fst (rev ?al))" by (simp add: rev_map [symmetric])
  have bound: "\<forall>f \<in> set files. \<not> IsDir f \<longrightarrow> ?ta' (path_Join [prefix, Name f]) = Some (path_Join [pth, Name f])"
  proof (intro ballI impI)
    fix f assume "f \<in> set files" "\<not> IsDir f"
    then have "(path_Join [prefix, Name f], path_Join [pth, Name f]) \<in> set (rev ?al)"
      by (auto simp add: entry_aliases_def)
    then have "map_of (rev ?al) (path_Join [prefix, Name f]) = Some (path_Join [pth, Name f])"
      using drev by (rule map_of_is_SomeI [rotated])
    then show "?ta' (path_Join [prefix, Name f]) = Some (path_Join [pth, Name f])"
      by (rule map_add_find_right)
  qed
  have frame: "\<forall>k. (\<forall>f \<in> set files. IsDir f \<or> k \<noteq> path_Join [prefix, Name f]) \<longrightarrow> ?ta' k = ta k"
  proof (intro allI impI)
    fix k assume k: "\<forall>f \<in> set files. IsDir f \<or> k \<noteq> path_Join [prefix, Name f]"
    then have "k \<notin> fst ` set (rev ?al)" by (auto simp add: entry_aliases_def)
    then have "map_of (rev ?al) k = None" by (simp add: map_of_eq_None_iff)
    then show "?ta' k = ta k" by (simp add: map_add_def)
  qed
  have keys: "distinct (map (\<lambda>f. path_Join [prefix, Name f]) (filter (\<lambda>f. \<not> IsDir f) files))"
    using dist by (simp add: entry_aliases_def comp_def)
  have literal: "path_Clean prefix = prefix \<and> prefix \<noteq> ''.'' \<and> prefix \<noteq> ''/'' \<longrightarrow>
      (\<forall>f \<in> set files. path_Join [prefix, Name f] = prefix @ ''/'' @ Name f)"
  proof (intro impI ballI)
    fix f assume c: "path_Clean prefix = prefix \<and> prefix \<noteq> ''.'' \<and> prefix \<noteq> ''/''" and f: "f \<in> set files"
    have "entry_name (Name f)" using assms(7) f by blast
    then show "path_Join [prefix, Name f] = prefix @ ''/'' @ Name f"
      using c by (intro path_Join_clean_prefix) simp_all
  qed
  have documented: "\<forall>f \<in> set files.
      path_Join [prefix, Name f] = (if prefix = [] then Name f else path_Clean (prefix @ ''/'' @ Name f)) \<and>
      path_Join [pth, Name f] = (if pth = [] then Name f else path_Clean (pth @ ''/'' @ Name f)) \<and>
      path_Clean (prefix @ ''/'' @ Name f) = clean_spec (prefix @ ''/'' @ Name f) \<and>
      path_Clean (pth @ ''/'' @ Name f) = clean_spec (pth @ ''/'' @ Name f) \<and>
      cleaned (path_Join [prefix, Name f]) \<and> cleaned (path_Join [pth, Name f])"
  proof (intro ballI conjI)
    fix f assume f: "f \<in> set files"
    then have e: "entry_name (Name f)" using assms(7) by blast
    show "path_Join [prefix, Name f] = (if prefix = [] then Name f else path_Clean (prefix @ ''/'' @ Name f))"
      using path_Join_entry_spec [OF e, of prefix] by (simp only: path_Clean_spec)
    show "path_Join [pth, Name f] = (if pth = [] then Name f else path_Clean (pth @ ''/'' @ Name f))"
      using path_Join_entry_spec [OF e, of pth] by (simp only: path_Clean_spec)
    show "path_Clean (prefix @ ''/'' @ Name f) = clean_spec (prefix @ ''/'' @ Name f)"
      by (rule path_Clean_spec)
    show "path_Clean (pth @ ''/'' @ Name f) = clean_spec (pth @ ''/'' @ Name f)"
      by (rule path_Clean_spec)
    show "cleaned (path_Join [prefix, Name f])" using e by (rule path_Join_entry_cleaned)
    show "cleaned (path_Join [pth, Name f])" using e by (rule path_Join_entry_cleaned)
  qed
  from eq bound frame keys literal documented show ?thesis by blast
qed

lemma split_arg_examples:
  "split_arg ''dir'' = ([], ''dir'')"
  "split_arg ''t=dir'' = (''t'', ''dir'')"
  "split_arg ''x=a.t'' = (''x'', ''a.t'')"
  "split_arg ''x=b.t'' = (''x'', ''b.t'')"
  "split_arg ''a.t'' = ([], ''a.t'')"
  "split_arg ''missing.t'' = ([], ''missing.t'')"
  by (simp_all add: split_arg_def SplitN_eq_2_def)

theorem parseTemplateArg_directory_witness:
  "(\<exists>ta'. parseTemplateArg example_world ''t=dir'' Map.empty = Inr ta'
      \<and> ta' ''t/x.t'' = Some ''dir/x.t'' \<and> ta' ''t/y.t'' = Some ''dir/y.t'' \<and> ta' ''t/sub'' = None)
   \<and> (\<exists>ta'. parseTemplateArg example_world ''dir'' Map.empty = Inr ta'
      \<and> ta' ''dir/x.t'' = Some ''dir/x.t'' \<and> ta' ''dir/y.t'' = Some ''dir/y.t'' \<and> ta' ''dir/sub'' = None)
   \<and> (\<exists>ta'. parseTemplateArg example_world ''./t=dir'' Map.empty = Inr ta'
      \<and> ta' ''t/x.t'' = Some ''dir/x.t'' \<and> ta' ''t/y.t'' = Some ''dir/y.t'' \<and> ta' ''./t/x.t'' = None)
   \<and> clean_spec ''./t/x.t'' = ''t/x.t'' \<and> cleaned ''t/x.t''"
proof -
  let ?files = "[\<lparr>Name = ''sub'', IsDir = True\<rparr>, \<lparr>Name = ''x.t'', IsDir = False\<rparr>, \<lparr>Name = ''y.t'', IsDir = False\<rparr>]"
  have st: "fs_Stat example_world ''dir'' = Inr \<lparr>Name = ''dir'', IsDir = True\<rparr>"
    by (simp add: example_world_def example_Stat_def)
  have isd: "IsDir \<lparr>Name = ''dir'', IsDir = True\<rparr>" by simp
  have rd: "afero_ReadDir example_world ''dir'' = Inr ?files"
    by (simp add: example_world_def example_ReadDir_def)
  have di: "distinct (map Name ?files)" by simp
  have en: "\<forall>f \<in> set ?files. entry_name (Name f)" by (simp add: entry_name_def)
  have p1: "''t'' = (if ''t'' \<noteq> [] then ''t'' else ''dir'')" by simp
  have p2: "''dir'' = (if ([]::string) \<noteq> [] then [] else ''dir'')" by simp
  have p3: "''./t'' = (if ''./t'' \<noteq> [] then ''./t'' else ''dir'')" by simp
  have sp: "split_arg ''./t=dir'' = (''./t'', ''dir'')"
    by (simp add: split_arg_def SplitN_eq_2_def)
  have j: "path_Join [''t'', ''x.t''] = ''t/x.t''" "path_Join [''t'', ''y.t''] = ''t/y.t''"
    "path_Join [''t'', ''sub''] = ''t/sub''"
    "path_Join [''dir'', ''x.t''] = ''dir/x.t''" "path_Join [''dir'', ''y.t''] = ''dir/y.t''"
    "path_Join [''dir'', ''sub''] = ''dir/sub''"
    "path_Join [''./t'', ''x.t''] = ''t/x.t''" "path_Join [''./t'', ''y.t''] = ''t/y.t''"
    "path_Join [''./t'', ''sub''] = ''t/sub''"
    by (simp_all add: path_Join_def path_Clean_def is_sep_next_def)
  note w1 = parseTemplateArg_directory [OF split_arg_examples(2) st isd rd p1 di en, of Map.empty]
  note w2 = parseTemplateArg_directory [OF split_arg_examples(1) st isd rd p2 di en, of Map.empty]
  note w3 = parseTemplateArg_directory [OF sp st isd rd p3 di en, of Map.empty]
  have a1: "\<exists>ta'. parseTemplateArg example_world ''t=dir'' Map.empty = Inr ta'
      \<and> ta' ''t/x.t'' = Some ''dir/x.t'' \<and> ta' ''t/y.t'' = Some ''dir/y.t'' \<and> ta' ''t/sub'' = None"
    using w1 by (simp add: j) force
  have a2: "\<exists>ta'. parseTemplateArg example_world ''dir'' Map.empty = Inr ta'
      \<and> ta' ''dir/x.t'' = Some ''dir/x.t'' \<and> ta' ''dir/y.t'' = Some ''dir/y.t'' \<and> ta' ''dir/sub'' = None"
    using w2 by (simp add: j) force
  have a3: "\<exists>ta'. parseTemplateArg example_world ''./t=dir'' Map.empty = Inr ta'
      \<and> ta' ''t/x.t'' = Some ''dir/x.t'' \<and> ta' ''t/y.t'' = Some ''dir/y.t'' \<and> ta' ''./t/x.t'' = None"
    using w3 by (simp add: j) force
  have a4: "clean_spec ''./t/x.t'' = ''t/x.t'' \<and> cleaned ''t/x.t''"
    using w3 by (simp add: j path_Clean_spec) metis
  from a1 a2 a3 a4 show ?thesis by (intro conjI) blast+
qed

text \<open>
  The key is not always the text \<open>prefix/name\<close>: for the argument \<open>./t=dir\<close> the
  prefix is \<open>./t\<close>, and the entry \<open>x.t\<close> is registered under \<open>t/x.t\<close>; nothing is
  registered under \<open>./t/x.t\<close>.
\<close>

theorem parseTemplateArg_directory_key_counterexample:
  "parseTemplateArg example_world ''./t=dir'' Map.empty =
     Inr (Map.empty(''t/x.t'' \<mapsto> ''dir/x.t'', ''t/y.t'' \<mapsto> ''dir/y.t''))
   \<and> (Map.empty(''t/x.t'' \<mapsto> ''dir/x.t'', ''t/y.t'' \<mapsto> ''dir/y.t'')) (''./t'' @ ''/'' @ ''x.t'') = None"
proof -
  have sp: "split_arg ''./t=dir'' = (''./t'', ''dir'')"
    by (simp add: split_arg_def SplitN_eq_2_def)
  have j: "path_Join [''./t'', ''x.t''] = ''t/x.t''" "path_Join [''./t'', ''y.t''] = ''t/y.t''"
    "path_Join [''dir'', ''x.t''] = ''dir/x.t''" "path_Join [''dir'', ''y.t''] = ''dir/y.t''"
    by (simp_all add: path_Join_def path_Clean_def is_sep_next_def)
  show ?thesis
    by (simp add: parseTemplateArg_def sp j example_world_def example_Stat_def example_ReadDir_def Let_def)
qed

lemma parseTemplateArg_fails:
  assumes "split_arg a = (alias, pth)"
    and "fs_Stat E pth = Inl e \<or> (\<exists>fi. fs_Stat E pth = Inr fi \<and> IsDir fi \<and> afero_ReadDir E pth = Inl e)"
  shows "parseTemplateArg E a ta = Inl e"
  using assms by (auto simp add: parseTemplateArg_def)

text \<open>
  C6. When the path of a template argument does not exist, or it is a directory whose
  listing fails, and the arguments before it resolved, \<^verbatim>\<open>parseTemplateArgs\<close> returns
  that error and no map, however many arguments came before. \<^verbatim>\<open>RunTemplates\<close> then
  returns an error (that one, unless \<^verbatim>\<open>data.NewData\<close> had failed before the arguments
  were read) and the only event of the run is the cleanup: no template is gathered,
  compiled or executed.
\<close>

theorem parseTemplateArgs_error_aborts:
  assumes "\<forall>b \<in> set pre. \<exists>d. parseTemplateArg E b Map.empty = Inr d"
    and "split_arg a = (alias, pth)"
    and "fs_Stat E pth = Inl e \<or> (\<exists>fi. fs_Stat E pth = Inr fi \<and> IsDir fi \<and> afero_ReadDir E pth = Inl e)"
    and "Templates (defaults E o') = pre @ a # post"
  shows "parseTemplateArgs E (pre @ a # post) = Inl e
     \<and> fst (RunTemplates E o' w) =
         Some (case data_NewData E (DataSources (defaults E o') @ Contexts (defaults E o'))
                      (DataSourceHeaders (defaults E o')) of
                 Inl e' \<Rightarrow> e' | Inr d \<Rightarrow> e)
     \<and> snd (RunTemplates E o' w) = \<lparr>trace = trace w @ [CleanupHooks], Metrics = newMetrics\<rparr>"
proof -
  have a: "parseTemplateArg E a Map.empty = Inl e"
    using assms(2,3) by (rule parseTemplateArg_fails)
  have p: "parseTemplateArgs E (pre @ a # post) = Inl e"
    unfolding parseTemplateArgs_def using a assms(1) by (rule parse_loop_error)
  show ?thesis
    using p assms(4)
    by (cases w) (simp add: RunTemplates_def Let_def emit_def split: sum.splits)
qed

theorem parseTemplateArgs_error_aborts_witness:
  "parseTemplateArgs example_world [''x=a.t'', ''dir'', ''missing.t'', ''b.t''] =
     Inl (Error ''stat missing.t: no such file or directory'')
   \<and> RunTemplates example_world
       (example_Config\<lparr>Input := ''hello'', Templates := [''x=a.t'', ''dir'', ''missing.t'', ''b.t'']\<rparr>) start =
     (Some (Error ''stat missing.t: no such file or directory''),
      \<lparr>trace = [CleanupHooks], Metrics = newMetrics\<rparr>)"
proof -
  let ?o = "example_Config\<lparr>Input := ''hello'', Templates := [''x=a.t'', ''dir'', ''missing.t'', ''b.t'']\<rparr>"
  have pre: "\<forall>b \<in> set [''x=a.t'', ''dir'']. \<exists>d. parseTemplateArg example_world b Map.empty = Inr d"
    by (simp add: parseTemplateArg_def split_arg_examples example_world_def example_Stat_def
        example_ReadDir_def Let_def)
  have st: "fs_Stat example_world ''missing.t'' = Inl (Error ''stat missing.t: no such file or directory'') \<or>
      (\<exists>fi. fs_Stat example_world ''missing.t'' = Inr fi \<and> IsDir fi \<and>
         afero_ReadDir example_world ''missing.t'' = Inl (Error ''stat missing.t: no such file or directory''))"
    by (simp add: example_world_def example_Stat_def)
  have t: "Templates (defaults example_world ?o) = [''x=a.t'', ''dir''] @ ''missing.t'' # [''b.t'']"
    by (simp add: example_world_def)
  have nd: "data_NewData example_world (DataSources (defaults example_world ?o) @ Contexts (defaults example_world ?o))
      (DataSourceHeaders (defaults example_world ?o)) = Inr (DataHandle 0)"
    by (simp add: example_world_def)
  show ?thesis
    using parseTemplateArgs_error_aborts [OF pre split_arg_examples(6) st t, of start] nd
    by (simp add: start_def prod_eq_iff)
qed

text \<open>
  C8. Take any sequence of template arguments that resolve. If an argument binds the key
  \<open>k\<close> to \<open>v\<close> and no later argument binds \<open>k\<close>, the resulting map binds \<open>k\<close> to
  \<open>v\<close>, whatever the earlier arguments bound \<open>k\<close> to: the later of two arguments with
  the same key wins, and the duplicate is no error.
\<close>

theorem parseTemplateArgs_last_wins:
  assumes "\<forall>b \<in> set (pre @ a # post). \<exists>d. parseTemplateArg E b Map.empty = Inr d"
    and "parseTemplateArg E a Map.empty = Inr d" and "d k = Some v"
    and "\<forall>b \<in> set post. \<forall>d'. parseTemplateArg E b Map.empty = Inr d' \<longrightarrow> d' k = None"
  shows "\<exists>m. parseTemplateArgs E (pre @ a # post) = Inr m \<and> m k = Some v"
proof -
  obtain m where m: "parse_loop E (pre @ a # post) Map.empty = Inr m"
    using parse_loop_success [OF assms(1)] by blast
  have "m k = Some v" using m assms(2,3,4) by (rule parse_loop_last_wins)
  with m show ?thesis by (simp add: parseTemplateArgs_def)
qed

theorem parseTemplateArgs_last_wins_witness:
  "\<exists>m. parseTemplateArgs example_world [''x=a.t'', ''x=b.t''] = Inr m \<and> m ''x'' = Some ''b.t''"
proof -
  have a: "parseTemplateArg example_world ''x=a.t'' Map.empty = Inr (Map.empty(''x'' \<mapsto> ''a.t''))"
    by (simp add: parseTemplateArg_def split_arg_examples example_world_def example_Stat_def)
  have b: "parseTemplateArg example_world ''x=b.t'' Map.empty = Inr (Map.empty(''x'' \<mapsto> ''b.t''))"
    by (simp add: parseTemplateArg_def split_arg_examples example_world_def example_Stat_def)
  have all: "\<forall>b \<in> set ([''x=a.t''] @ ''x=b.t'' # []). \<exists>d. parseTemplateArg example_world b Map.empty = Inr d"
    using a b by simp
  have v: "(Map.empty(''x'' \<mapsto> ''b.t'')) ''x'' = Some ''b.t''" by simp
  have post: "\<forall>b \<in> set []. \<forall>d'. parseTemplateArg example_world b Map.empty = Inr d' \<longrightarrow> d' ''x'' = None"
    by simp
  show ?thesis
    using parseTemplateArgs_last_wins [OF all b v post] by simp
qed

section \<open>Properties: the batch\<close>

lemma outcomes_append: "outcomes (xs @ ys) = outcomes xs @ outcomes ys"
  by (induction xs rule: outcomes.induct) auto

lemma runTemplate_outcome:
  assumes "runTemplate E g t w = (r, w')"
  shows "\<exists>evs. trace w' = trace w @ evs \<and> outcomes evs = [(t, r)] \<and> Metrics w' = Metrics w"
proof (cases "toGoTemplate E (trace w) t g")
  case (Inl e)
  have "r = Some e" "w' = w\<lparr>trace := trace w @ [Compiled t (Some e)]\<rparr>"
    using runTemplate_compile_error [OF Inl] assms by simp_all
  then have "trace w' = trace w @ [Compiled t (Some e)]" "outcomes [Compiled t (Some e)] = [(t, r)]"
    "Metrics w' = Metrics w"
    by simp_all
  then show ?thesis by blast
next
  case (Inr tmpl)
  obtain out err where ex: "Execute E (trace w @ [Compiled t None]) tmpl (target t) (context' g) = (out, err)"
    by (cases "Execute E (trace w @ [Compiled t None]) tmpl (target t) (context' g)")
  let ?evs = "[Compiled t None, Executed t (context' g) out err] @
      (if is_Closer (target t) \<and> target t \<noteq> os_Stdout then [Closed (target t)] else [])"
  have "r = err" "w' = w\<lparr>trace := trace w @ ?evs\<rparr>"
    using runTemplate_executed [OF Inr ex] assms by simp_all
  then have "trace w' = trace w @ ?evs" "outcomes ?evs = [(t, r)]" "Metrics w' = Metrics w"
    by simp_all
  then show ?thesis by blast
qed

lemma render_loop_outcomes:
  "render_loop E g ts w = (r, w') \<Longrightarrow>
   \<exists>evs. trace w' = trace w @ evs \<and>
     TemplatesGathered (Metrics w') = TemplatesGathered (Metrics w) \<and>
     (case r of
        None \<Rightarrow> outcomes evs = map (\<lambda>t. (t, None)) ts \<and>
          TemplatesProcessed (Metrics w') = TemplatesProcessed (Metrics w) + length ts \<and>
          Errors (Metrics w') = Errors (Metrics w)
      | Some e \<Rightarrow> \<exists>k<length ts.
          outcomes evs = map (\<lambda>t. (t, None)) (take k ts) @ [(ts ! k, Some e)] \<and>
          TemplatesProcessed (Metrics w') = TemplatesProcessed (Metrics w) + k \<and>
          Errors (Metrics w') = Errors (Metrics w) + 1)"
proof (induction ts arbitrary: w)
  case Nil
  then show ?case by auto
next
  case (Cons t ts)
  obtain r1 w1 where rt: "runTemplate E g t w = (r1, w1)" by (cases "runTemplate E g t w")
  then obtain evs1 where tr1: "trace w1 = trace w @ evs1" and oc1: "outcomes evs1 = [(t, r1)]"
    and m1: "Metrics w1 = Metrics w"
    using runTemplate_outcome by blast
  show ?case
  proof (cases r1)
    case (Some e)
    then have res: "r = Some e" "w' = count_error w1" using Cons.prems rt by auto
    have "trace w' = trace w @ evs1" using res tr1 by (simp add: count_error_def)
    moreover have "outcomes evs1 = map (\<lambda>t. (t, None)) (take 0 (t # ts)) @ [((t # ts) ! 0, Some e)]"
      using oc1 Some by simp
    moreover have "TemplatesProcessed (Metrics w') = TemplatesProcessed (Metrics w) + 0"
      "Errors (Metrics w') = Errors (Metrics w) + 1"
      "TemplatesGathered (Metrics w') = TemplatesGathered (Metrics w)"
      using res m1 by (simp_all add: count_error_def)
    moreover have "0 < length (t # ts)" by simp
    ultimately have "\<exists>k<length (t # ts).
          outcomes evs1 = map (\<lambda>t. (t, None)) (take k (t # ts)) @ [((t # ts) ! k, Some e)] \<and>
          TemplatesProcessed (Metrics w') = TemplatesProcessed (Metrics w) + k \<and>
          Errors (Metrics w') = Errors (Metrics w) + 1"
      by (intro exI [of _ 0]) (simp only: simp_thms)
    with \<open>trace w' = trace w @ evs1\<close> \<open>TemplatesGathered (Metrics w') = TemplatesGathered (Metrics w)\<close>
    show ?thesis unfolding res(1) option.case by (intro exI [of _ evs1] conjI)
  next
    case None
    then have rest: "render_loop E g ts (count_processed w1) = (r, w')" using Cons.prems rt by auto
    from Cons.IH [OF rest] obtain evs where tr: "trace w' = trace (count_processed w1) @ evs"
      and tg: "TemplatesGathered (Metrics w') = TemplatesGathered (Metrics (count_processed w1))"
      and c: "(case r of
        None \<Rightarrow> outcomes evs = map (\<lambda>t. (t, None)) ts \<and>
          TemplatesProcessed (Metrics w') = TemplatesProcessed (Metrics (count_processed w1)) + length ts \<and>
          Errors (Metrics w') = Errors (Metrics (count_processed w1))
      | Some e \<Rightarrow> \<exists>k<length ts.
          outcomes evs = map (\<lambda>t. (t, None)) (take k ts) @ [(ts ! k, Some e)] \<and>
          TemplatesProcessed (Metrics w') = TemplatesProcessed (Metrics (count_processed w1)) + k \<and>
          Errors (Metrics w') = Errors (Metrics (count_processed w1)) + 1)"
      by blast
    have cp: "trace (count_processed w1) = trace w @ evs1"
      "TemplatesProcessed (Metrics (count_processed w1)) = TemplatesProcessed (Metrics w) + 1"
      "Errors (Metrics (count_processed w1)) = Errors (Metrics w)"
      "TemplatesGathered (Metrics (count_processed w1)) = TemplatesGathered (Metrics w)"
      using tr1 m1 by (simp_all add: count_processed_def)
    have tr': "trace w' = trace w @ (evs1 @ evs)" using tr cp by simp
    have oc: "outcomes (evs1 @ evs) = (t, None) # outcomes evs"
      using oc1 None by (simp add: outcomes_append)
    show ?thesis
    proof (cases r)
      case None
      then have "outcomes (evs1 @ evs) = map (\<lambda>t. (t, None)) (t # ts)"
        "TemplatesProcessed (Metrics w') = TemplatesProcessed (Metrics w) + length (t # ts)"
        "Errors (Metrics w') = Errors (Metrics w)"
        using c oc cp by simp_all
      moreover have "TemplatesGathered (Metrics w') = TemplatesGathered (Metrics w)" using tg cp by simp
      ultimately show ?thesis unfolding None option.case using tr'
        by (intro exI [of _ "evs1 @ evs"] conjI)
    next
      case (Some e)
      then obtain k where k: "k < length ts"
        and ok: "outcomes evs = map (\<lambda>t. (t, None)) (take k ts) @ [(ts ! k, Some e)]"
        and tp: "TemplatesProcessed (Metrics w') = TemplatesProcessed (Metrics (count_processed w1)) + k"
        and er: "Errors (Metrics w') = Errors (Metrics (count_processed w1)) + 1"
        using c by auto
      have "Suc k < length (t # ts)" using k by simp
      moreover have "outcomes (evs1 @ evs) =
          map (\<lambda>t. (t, None)) (take (Suc k) (t # ts)) @ [((t # ts) ! Suc k, Some e)]"
        using oc ok by simp
      moreover have "TemplatesProcessed (Metrics w') = TemplatesProcessed (Metrics w) + Suc k"
        "Errors (Metrics w') = Errors (Metrics w) + 1"
        using tp er cp by simp_all
      ultimately have "\<exists>k<length (t # ts).
          outcomes (evs1 @ evs) = map (\<lambda>t. (t, None)) (take k (t # ts)) @ [((t # ts) ! k, Some e)] \<and>
          TemplatesProcessed (Metrics w') = TemplatesProcessed (Metrics w) + k \<and>
          Errors (Metrics w') = Errors (Metrics w) + 1"
        by (intro exI [of _ "Suc k"] conjI)
      moreover have "TemplatesGathered (Metrics w') = TemplatesGathered (Metrics w)" using tg cp by simp
      ultimately show ?thesis unfolding Some option.case using tr'
        by (intro exI [of _ "evs1 @ evs"] conjI)
    qed
  qed
qed

text \<open>
  C1. When gathering succeeds with the descriptors \<open>ts\<close>, \<^verbatim>\<open>runTemplates\<close> renders them
  in that order and stops at the first failure. If it returns no error, every
  descriptor was rendered without error, in order, \<^verbatim>\<open>TemplatesProcessed\<close> grew by the
  number of descriptors and \<^verbatim>\<open>Errors\<close> did not change. If it returns the error \<open>e\<close>,
  there is a position \<open>k\<close> (counted from zero) such that the first \<open>k\<close> descriptors
  were rendered without error, the next one failed with \<open>e\<close>, none after it was
  rendered, \<^verbatim>\<open>TemplatesProcessed\<close> grew by \<open>k\<close> and \<^verbatim>\<open>Errors\<close> by one.
  \<^verbatim>\<open>RunTemplates\<close> resets the counters before it calls \<^verbatim>\<open>runTemplates\<close>, so there
  they are \<open>k\<close> and one.
\<close>

theorem runTemplates_fail_fast:
  assumes "gatherTemplates E (trace w) o' (chooseNamer o' g) = Inr ts"
  shows "case runTemplates E g o' w of
      (None, w') \<Rightarrow>
        outcomes (events_since w w') = map (\<lambda>t. (t, None)) ts \<and>
        TemplatesProcessed (Metrics w') = TemplatesProcessed (Metrics w) + length ts \<and>
        Errors (Metrics w') = Errors (Metrics w)
    | (Some e, w') \<Rightarrow>
        (\<exists>k<length ts.
          outcomes (events_since w w') = map (\<lambda>t. (t, None)) (take k ts) @ [(ts ! k, Some e)] \<and>
          TemplatesProcessed (Metrics w') = TemplatesProcessed (Metrics w) + k \<and>
          Errors (Metrics w') = Errors (Metrics w) + 1)"
proof -
  define w2 where "w2 = (emit (Gathered None) w)\<lparr>Metrics := (Metrics (emit (Gathered None) w))\<lparr>TemplatesGathered := length ts\<rparr>\<rparr>"
  obtain r w' where run: "render_loop E g ts w2 = (r, w')" by (cases "render_loop E g ts w2")
  have rt: "runTemplates E g o' w = (r, w')"
    using assms run by (simp add: runTemplates_def w2_def Let_def)
  have w2: "trace w2 = trace w @ [Gathered None]"
    "TemplatesProcessed (Metrics w2) = TemplatesProcessed (Metrics w)"
    "Errors (Metrics w2) = Errors (Metrics w)"
    by (simp_all add: w2_def emit_def)
  from render_loop_outcomes [OF run] obtain evs where tr: "trace w' = trace w2 @ evs"
    and c: "(case r of
        None \<Rightarrow> outcomes evs = map (\<lambda>t. (t, None)) ts \<and>
          TemplatesProcessed (Metrics w') = TemplatesProcessed (Metrics w2) + length ts \<and>
          Errors (Metrics w') = Errors (Metrics w2)
      | Some e \<Rightarrow> \<exists>k<length ts.
          outcomes evs = map (\<lambda>t. (t, None)) (take k ts) @ [(ts ! k, Some e)] \<and>
          TemplatesProcessed (Metrics w') = TemplatesProcessed (Metrics w2) + k \<and>
          Errors (Metrics w') = Errors (Metrics w2) + 1)"
    by blast
  have "events_since w w' = Gathered None # evs" using tr w2 by (simp add: events_since_def)
  then have oc: "outcomes (events_since w w') = outcomes evs" by simp
  show ?thesis unfolding rt using c oc w2 by (cases r) simp_all
qed

theorem runTemplates_fail_fast_witness:
  "fst (runTemplates example_world example_gomplate
          (example_Config\<lparr>InputFiles := [''a'', ''{{fail}}'', ''c'']\<rparr>) start) =
     Some (Error ''template failed'')
   \<and> TemplatesProcessed (Metrics (snd (runTemplates example_world example_gomplate
          (example_Config\<lparr>InputFiles := [''a'', ''{{fail}}'', ''c'']\<rparr>) start))) = 1
   \<and> Errors (Metrics (snd (runTemplates example_world example_gomplate
          (example_Config\<lparr>InputFiles := [''a'', ''{{fail}}'', ''c'']\<rparr>) start))) = 1
   \<and> outcomes (events_since start (snd (runTemplates example_world example_gomplate
          (example_Config\<lparr>InputFiles := [''a'', ''{{fail}}'', ''c'']\<rparr>) start))) =
       [(\<lparr>name = ''a'', contents = ''a'', target = OtherWriter 1 True\<rparr>, None),
        (\<lparr>name = ''{{fail}}'', contents = ''{{fail}}'', target = OtherWriter 8 True\<rparr>,
         Some (Error ''template failed''))]"
proof -
  let ?o = "example_Config\<lparr>InputFiles := [''a'', ''{{fail}}'', ''c'']\<rparr>"
  let ?ts = "[\<lparr>name = ''a'', contents = ''a'', target = OtherWriter 1 True\<rparr>,
              \<lparr>name = ''{{fail}}'', contents = ''{{fail}}'', target = OtherWriter 8 True\<rparr>,
              \<lparr>name = ''c'', contents = ''c'', target = OtherWriter 1 True\<rparr>]"
  have g: "gatherTemplates example_world (trace start) ?o (chooseNamer ?o example_gomplate) = Inr ?ts"
    by (simp add: example_world_def example_gatherTemplates_def example_Config_def)
  have r: "fst (runTemplates example_world example_gomplate ?o start) = Some (Error ''template failed'')"
    by (simp add: runTemplates_def runTemplate_def example_world_def example_gatherTemplates_def
        example_Config_def example_toGoTemplate_def example_Execute_def emit_def Let_def start_def
        count_error_def count_processed_def)
  obtain w' where w': "runTemplates example_world example_gomplate ?o start = (Some (Error ''template failed''), w')"
    using r by (cases "runTemplates example_world example_gomplate ?o start") simp
  from runTemplates_fail_fast [OF g] w'
  obtain k where k: "k < length ?ts"
    and oc: "outcomes (events_since start w') = map (\<lambda>t. (t, None)) (take k ?ts) @ [(?ts ! k, Some (Error ''template failed''))]"
    and tp: "TemplatesProcessed (Metrics w') = TemplatesProcessed (Metrics start) + k"
    and er: "Errors (Metrics w') = Errors (Metrics start) + 1"
    by auto
  have direct0: "outcomes (events_since start (snd (runTemplates example_world example_gomplate ?o start))) =
       [(\<lparr>name = ''a'', contents = ''a'', target = OtherWriter 1 True\<rparr>, None),
        (\<lparr>name = ''{{fail}}'', contents = ''{{fail}}'', target = OtherWriter 8 True\<rparr>,
         Some (Error ''template failed''))]"
    by (simp add: runTemplates_def runTemplate_def example_world_def example_gatherTemplates_def
        example_Config_def example_toGoTemplate_def example_Execute_def emit_def Let_def start_def
        count_error_def count_processed_def events_since_def os_Stdout_def)
  have ws: "snd (runTemplates example_world example_gomplate ?o start) = w'" using w' by simp
  have direct: "outcomes (events_since start w') =
       [(\<lparr>name = ''a'', contents = ''a'', target = OtherWriter 1 True\<rparr>, None),
        (\<lparr>name = ''{{fail}}'', contents = ''{{fail}}'', target = OtherWriter 8 True\<rparr>,
         Some (Error ''template failed''))]"
    using direct0 unfolding ws .
  have "length (outcomes (events_since start w')) = Suc k" using oc k by simp
  then have "k = 1" using direct by simp
  then show ?thesis using w' tp er direct by (simp add: start_def newMetrics_def)
qed

section \<open>Properties: file arguments, a failed gathering, the cleanup hooks\<close>

text \<open>
  For an argument whose path is a file, \<^verbatim>\<open>parseTemplateArg\<close> binds the alias to the
  path, or the path to itself when the argument gives no alias.
\<close>

theorem parseTemplateArg_file:
  assumes "split_arg templateArg = (alias, pth)"
    and "fs_Stat E pth = Inr fi" and "\<not> IsDir fi"
  shows "parseTemplateArg E templateArg ta = Inr (ta((if alias \<noteq> [] then alias else pth) \<mapsto> pth))"
  using assms by (simp add: parseTemplateArg_def)

theorem parseTemplateArg_file_witness:
  "parseTemplateArg example_world ''x=a.t'' Map.empty = Inr (Map.empty(''x'' \<mapsto> ''a.t''))
   \<and> parseTemplateArg example_world ''a.t'' Map.empty = Inr (Map.empty(''a.t'' \<mapsto> ''a.t''))"
proof -
  have st: "fs_Stat example_world ''a.t'' = Inr \<lparr>Name = ''a.t'', IsDir = False\<rparr>"
    by (simp add: example_world_def example_Stat_def)
  have nd: "\<not> IsDir \<lparr>Name = ''a.t'', IsDir = False\<rparr>" by simp
  show ?thesis
    using parseTemplateArg_file [OF split_arg_examples(3) st nd, of Map.empty]
      parseTemplateArg_file [OF split_arg_examples(5) st nd, of Map.empty]
    by simp
qed

text \<open>
  When gathering fails, \<^verbatim>\<open>runTemplates\<close> returns that error, adds one to
  \<^verbatim>\<open>Errors\<close>, leaves the other counters alone and renders nothing.
\<close>

theorem runTemplates_gather_error:
  assumes "gatherTemplates E (trace w) o' (chooseNamer o' g) = Inl e"
  shows "runTemplates E g o' w =
     (Some e, \<lparr>trace = trace w @ [Gathered (Some e)],
               Metrics = (Metrics w)\<lparr>Errors := Errors (Metrics w) + 1\<rparr>\<rparr>)"
  using assms by (cases w) (simp add: runTemplates_def count_error_def emit_def)

theorem runTemplates_gather_error_witness:
  "runTemplates (example_world\<lparr>gatherTemplates := (\<lambda>tr c nm. Inl (Error ''walk failed''))\<rparr>)
       example_gomplate example_Config start =
     (Some (Error ''walk failed''),
      \<lparr>trace = [Gathered (Some (Error ''walk failed''))],
       Metrics = \<lparr>TemplatesGathered = 0, TemplatesProcessed = 0, Errors = 1\<rparr>\<rparr>)"
proof -
  have g: "gatherTemplates (example_world\<lparr>gatherTemplates := (\<lambda>tr c nm. Inl (Error ''walk failed''))\<rparr>)
      (trace start) example_Config (chooseNamer example_Config example_gomplate) = Inl (Error ''walk failed'')"
    by simp
  show ?thesis
    using runTemplates_gather_error [OF g] by (simp add: start_def newMetrics_def)
qed

lemma cleanups_append: "cleanups (xs @ ys) = cleanups xs + cleanups ys"
  by (induction xs rule: cleanups.induct) auto

lemma runTemplate_no_cleanup:
  "\<exists>evs. trace (snd (runTemplate E g t w)) = trace w @ evs \<and> cleanups evs = 0"
proof (cases "toGoTemplate E (trace w) t g")
  case (Inl e)
  show ?thesis using runTemplate_compile_error [OF Inl] by simp
next
  case (Inr tmpl)
  obtain out err where ex: "Execute E (trace w @ [Compiled t None]) tmpl (target t) (context' g) = (out, err)"
    by (cases "Execute E (trace w @ [Compiled t None]) tmpl (target t) (context' g)")
  show ?thesis using runTemplate_executed [OF Inr ex] by simp
qed

lemma render_loop_no_cleanup:
  "\<exists>evs. trace (snd (render_loop E g ts w)) = trace w @ evs \<and> cleanups evs = 0"
proof (induction ts arbitrary: w)
  case Nil
  then show ?case by simp
next
  case (Cons t ts)
  obtain r w1 where rt: "runTemplate E g t w = (r, w1)" by (cases "runTemplate E g t w")
  obtain evs1 where e1: "trace w1 = trace w @ evs1" "cleanups evs1 = 0"
    using runTemplate_no_cleanup [of E g t w] rt by auto
  show ?case
  proof (cases r)
    case (Some e)
    then have "snd (render_loop E g (t # ts) w) = count_error w1" using rt by simp
    then show ?thesis using e1 by (simp add: count_error_def)
  next
    case None
    then have s: "snd (render_loop E g (t # ts) w) = snd (render_loop E g ts (count_processed w1))"
      using rt by simp
    obtain evs where e: "trace (snd (render_loop E g ts (count_processed w1))) = trace (count_processed w1) @ evs"
      "cleanups evs = 0"
      using Cons.IH by blast
    have "trace (snd (render_loop E g (t # ts) w)) = trace w @ (evs1 @ evs)"
      using s e e1 by (simp add: count_processed_def)
    moreover have "cleanups (evs1 @ evs) = 0" using e e1 by (simp add: cleanups_append)
    ultimately show ?thesis by blast
  qed
qed

lemma runTemplates_no_cleanup:
  "\<exists>evs. trace (snd (runTemplates E g o' w)) = trace w @ evs \<and> cleanups evs = 0"
proof (cases "gatherTemplates E (trace w) o' (chooseNamer o' g)")
  case (Inl e)
  then show ?thesis by (simp add: runTemplates_def count_error_def emit_def)
next
  case (Inr ts)
  define w2 where "w2 = (emit (Gathered None) w)\<lparr>Metrics := (Metrics (emit (Gathered None) w))\<lparr>TemplatesGathered := length ts\<rparr>\<rparr>"
  have rt: "runTemplates E g o' w = render_loop E g ts w2"
    using Inr by (simp add: runTemplates_def w2_def Let_def)
  obtain evs where e: "trace (snd (render_loop E g ts w2)) = trace w2 @ evs" "cleanups evs = 0"
    using render_loop_no_cleanup by blast
  have "trace w2 = trace w @ [Gathered None]" by (simp add: w2_def emit_def)
  then have "trace (snd (runTemplates E g o' w)) = trace w @ (Gathered None # evs)"
    using rt e by simp
  moreover have "cleanups (Gathered None # evs) = 0" using e by simp
  ultimately show ?thesis by blast
qed

text \<open>
  On every way out of \<^verbatim>\<open>RunTemplates\<close> the cleanup hooks run exactly once, as the
  last effect of the run.
\<close>

theorem RunTemplates_cleanup_once:
  "\<exists>evs. trace (snd (RunTemplates E o' w)) = trace w @ evs @ [CleanupHooks] \<and> cleanups evs = 0"
proof -
  define c where "c = defaults E o'"
  show ?thesis
  proof (cases "data_NewData E (DataSources c @ Contexts c) (DataSourceHeaders c)")
    case (Inl e)
    then have "trace (snd (RunTemplates E o' w)) = trace w @ [] @ [CleanupHooks]"
      by (simp add: RunTemplates_def Let_def emit_def c_def)
    then show ?thesis by (intro exI [of _ "[]"]) simp
  next
    case d: (Inr d)
    show ?thesis
    proof (cases "parseTemplateArgs E (Templates c)")
      case (Inl e)
      then have "trace (snd (RunTemplates E o' w)) = trace w @ [] @ [CleanupHooks]"
        using d by (simp add: RunTemplates_def Let_def emit_def c_def)
      then show ?thesis by (intro exI [of _ "[]"]) simp
    next
      case n: (Inr nested)
      show ?thesis
      proof (cases "createContext E (Contexts c) d")
        case (Inl e)
        then have "trace (snd (RunTemplates E o' w)) = trace w @ [] @ [CleanupHooks]"
          using d n by (simp add: RunTemplates_def Let_def emit_def c_def)
        then show ?thesis by (intro exI [of _ "[]"]) simp
      next
        case (Inr cx)
        define g where "g = newGomplate d (LDelim c) (RDelim c) nested cx"
        define w1 where "w1 = w\<lparr>Metrics := newMetrics\<rparr>"
        obtain evs where e: "trace (snd (runTemplates E g c w1)) = trace w1 @ evs" "cleanups evs = 0"
          using runTemplates_no_cleanup by blast
        have "snd (RunTemplates E o' w) = emit CleanupHooks (snd (runTemplates E g c w1))"
          using d n Inr by (simp add: RunTemplates_def Let_def c_def g_def w1_def split: prod.splits)
        then have "trace (snd (RunTemplates E o' w)) = trace w @ evs @ [CleanupHooks]"
          using e by (simp add: emit_def w1_def)
        then show ?thesis using e(2) by blast
      qed
    qed
  qed
qed

end
